theory Spec2Isabelle
  imports Complex_Main "HOL-Library.Sublist"
begin

section \<open>JavaScript values used by the scheduler\<close>

text \<open>
  Strings are lists of 8-bit characters; the CSV format and the time strings of the data
  model are ASCII. A JavaScript number that comes out of \<^verbatim>\<open>Number(s)\<close> on a piece of a
  time string is modelled as \<open>int option\<close>: \<open>None\<close> is NaN. \<^verbatim>\<open>Number\<close> reads a string of
  decimal digits as its value and the empty string as 0; every other string is read as NaN
  here (the other numeral spellings of JavaScript, such as a sign, a fraction or an exponent,
  never occur in an \<^verbatim>\<open>HH:MM\<close> time and are outside this model).
\<close>

type_synonym jsnum = "int option"

definition is_digit :: "char \<Rightarrow> bool" where
  "is_digit c = (48 \<le> (of_char c :: nat) \<and> (of_char c :: nat) \<le> 57)"

fun digits_value :: "nat \<Rightarrow> string \<Rightarrow> nat option" where
  "digits_value acc [] = Some acc"
| "digits_value acc (c # cs) =
     (if is_digit c then digits_value (acc * 10 + (of_char c - 48)) cs else None)"

definition Number_js :: "string \<Rightarrow> jsnum" where
  "Number_js s = map_option int (digits_value 0 s)"

text \<open>\<^verbatim>\<open>s.split(sep)\<close> for a one-character separator: never the empty list.\<close>

fun split_js :: "char \<Rightarrow> string \<Rightarrow> string list" where
  "split_js sep [] = [[]]"
| "split_js sep (c # cs) =
     (if c = sep then [] # split_js sep cs
      else (case split_js sep cs of
              [] \<Rightarrow> [[c]]
            | p # ps \<Rightarrow> (c # p) # ps))"

text \<open>
  Destructuring \<^verbatim>\<open>const [a, b] = parts.map(Number)\<close>: a missing element is
  \<^verbatim>\<open>undefined\<close>, which arithmetic turns into NaN.
\<close>

definition number_at :: "string list \<Rightarrow> nat \<Rightarrow> jsnum" where
  "number_at parts i = (if i < length parts then Number_js (parts ! i) else None)"

definition js_add :: "jsnum \<Rightarrow> jsnum \<Rightarrow> jsnum" where
  "js_add a b = (case a of None \<Rightarrow> None | Some x \<Rightarrow> (case b of None \<Rightarrow> None | Some y \<Rightarrow> Some (x + y)))"

definition js_sub :: "jsnum \<Rightarrow> jsnum \<Rightarrow> jsnum" where
  "js_sub a b = (case a of None \<Rightarrow> None | Some x \<Rightarrow> (case b of None \<Rightarrow> None | Some y \<Rightarrow> Some (x - y)))"

definition js_mul :: "jsnum \<Rightarrow> jsnum \<Rightarrow> jsnum" where
  "js_mul a b = (case a of None \<Rightarrow> None | Some x \<Rightarrow> (case b of None \<Rightarrow> None | Some y \<Rightarrow> Some (x * y)))"

text \<open>\<^verbatim>\<open>Math.max\<close> and \<^verbatim>\<open>Math.min\<close> are NaN as soon as one argument is.\<close>

definition Math_max :: "jsnum \<Rightarrow> jsnum \<Rightarrow> jsnum" where
  "Math_max a b = (case a of None \<Rightarrow> None | Some x \<Rightarrow> (case b of None \<Rightarrow> None | Some y \<Rightarrow> Some (max x y)))"

definition Math_min :: "jsnum \<Rightarrow> jsnum \<Rightarrow> jsnum" where
  "Math_min a b = (case a of None \<Rightarrow> None | Some x \<Rightarrow> (case b of None \<Rightarrow> None | Some y \<Rightarrow> Some (min x y)))"

text \<open>Every comparison with NaN is false.\<close>

definition js_lt :: "jsnum \<Rightarrow> jsnum \<Rightarrow> bool" where
  "js_lt a b = (case a of None \<Rightarrow> False | Some x \<Rightarrow> (case b of None \<Rightarrow> False | Some y \<Rightarrow> x < y))"

definition js_ge :: "jsnum \<Rightarrow> jsnum \<Rightarrow> bool" where
  "js_ge a b = (case a of None \<Rightarrow> False | Some x \<Rightarrow> (case b of None \<Rightarrow> False | Some y \<Rightarrow> x \<ge> y))"

section \<open>Data model (csvParser.ts, filters.ts, scheduleGenerator.ts)\<close>

record CourseTime =
  startTime :: string
  endTime :: string

datatype MeetingType = Online | InPerson

record CourseMeeting =
  day :: string
  time :: CourseTime
  type :: MeetingType

text \<open>
  The TypeScript type of \<open>meetings\<close> is a pair of meetings; the code only ever iterates
  over it, so it is a list here and the parser builds it with two elements.
\<close>

record CourseSection =
  courseName :: string
  subject :: string
  courseCode :: string
  crn :: string
  meetings :: "CourseMeeting list"

record ValidationResult =
  isValid :: bool
  errors :: "string list"
  data :: "CourseSection list option"

datatype TimeOfDay = Morning | Afternoon | Evening | AnyTime
datatype DeliveryMode = OnlineMode | InPersonMode | HybridMode | AnyMode
datatype ScheduleCompactness = Compact | Spread | AnyCompactness
datatype DaysOff = AnyDays | OneDay | TwoDays

record ScheduleFilters =
  isEnabled :: bool
  deliveryMode :: DeliveryMode
  timeOfDay :: TimeOfDay
  scheduleCompactness :: ScheduleCompactness
  daysOff :: DaysOff

record ScheduleCombination =
  sections :: "CourseSection list"
  courseCount :: int

record GeneratorStats =
  totalCombinations :: int
  coursesIncluded :: "string list"

record ScheduleGeneratorResult =
  combinations :: "ScheduleCombination list"
  stats :: GeneratorStats

section \<open>Conflict detector (hasTimeConflict)\<close>

text \<open>
  \<^verbatim>\<open>const [hours, minutes] = time.split(':').map(Number); hours * 60 + minutes\<close>:
  the helper \<open>timeToMinutes\<close> of the generator; \<open>hasTimeConflict\<close> writes the same two
  statements out four times.
\<close>

definition timeToMinutes :: "string \<Rightarrow> jsnum" where
  "timeToMinutes t =
     (let parts = split_js (CHR '':'') t;
          hours = number_at parts 0;
          minutes = number_at parts 1
      in js_add (js_mul hours (Some 60)) minutes)"

text \<open>The body of the inner loop: \<open>True\<close> is the early \<^verbatim>\<open>return true\<close>.\<close>

definition meetingsOverlap :: "CourseMeeting \<Rightarrow> CourseMeeting \<Rightarrow> bool" where
  "meetingsOverlap meeting1 meeting2 =
     (if day meeting1 \<noteq> day meeting2 then False
      else
        (let startTime1 = timeToMinutes (startTime (time meeting1));
             endTime1 = timeToMinutes (endTime (time meeting1));
             startTime2 = timeToMinutes (startTime (time meeting2));
             endTime2 = timeToMinutes (endTime (time meeting2))
         in js_lt (Math_max startTime1 startTime2) (Math_min endTime1 endTime2)))"

fun conflict_inner :: "CourseMeeting \<Rightarrow> CourseMeeting list \<Rightarrow> bool" where
  "conflict_inner meeting1 [] = False"
| "conflict_inner meeting1 (meeting2 # rest) =
     (if meetingsOverlap meeting1 meeting2 then True else conflict_inner meeting1 rest)"

fun conflict_outer :: "CourseMeeting list \<Rightarrow> CourseMeeting list \<Rightarrow> bool" where
  "conflict_outer [] ms2 = False"
| "conflict_outer (meeting1 # rest) ms2 =
     (if conflict_inner meeting1 ms2 then True else conflict_outer rest ms2)"

definition hasTimeConflict :: "CourseSection \<Rightarrow> CourseSection \<Rightarrow> bool" where
  "hasTimeConflict section1 section2 = conflict_outer (meetings section1) (meetings section2)"

text \<open>
  The overlap rule in the words of the specification: both meetings are on the same day and,
  in minutes since midnight, the later start lies strictly before the earlier end.
\<close>

definition overlap_rule :: "CourseMeeting \<Rightarrow> CourseMeeting \<Rightarrow> bool" where
  "overlap_rule mA mB =
     (day mA = day mB \<and>
      (case timeToMinutes (startTime (time mA)) of None \<Rightarrow> False | Some startA \<Rightarrow>
       (case timeToMinutes (endTime (time mA)) of None \<Rightarrow> False | Some endA \<Rightarrow>
        (case timeToMinutes (startTime (time mB)) of None \<Rightarrow> False | Some startB \<Rightarrow>
         (case timeToMinutes (endTime (time mB)) of None \<Rightarrow> False | Some endB \<Rightarrow>
            max startA startB < min endA endB)))))"

subsection \<open>Example sections\<close>

definition mk_meeting :: "string \<Rightarrow> string \<Rightarrow> string \<Rightarrow> MeetingType \<Rightarrow> CourseMeeting" where
  "mk_meeting d s e ty = \<lparr>day = d, time = \<lparr>startTime = s, endTime = e\<rparr>, type = ty\<rparr>"

definition mk_section ::
  "string \<Rightarrow> string \<Rightarrow> string \<Rightarrow> CourseMeeting \<Rightarrow> CourseMeeting \<Rightarrow> CourseSection" where
  "mk_section subj code c m1 m2 =
     \<lparr>courseName = ''Course'', subject = subj, courseCode = code, crn = c, meetings = [m1, m2]\<rparr>"

definition sec_A :: CourseSection where
  "sec_A = mk_section ''CPRG'' ''305'' ''30001''
     (mk_meeting ''Monday'' ''09:00'' ''10:00'' Online)
     (mk_meeting ''Wednesday'' ''09:00'' ''10:00'' InPerson)"

definition sec_B :: CourseSection where
  "sec_B = mk_section ''MATH'' ''101'' ''30002''
     (mk_meeting ''Monday'' ''09:00'' ''10:00'' InPerson)
     (mk_meeting ''Thursday'' ''13:00'' ''14:50'' InPerson)"

definition sec_C :: CourseSection where
  "sec_C = mk_section ''COMM'' ''238'' ''30003''
     (mk_meeting ''Monday'' ''10:00'' ''11:00'' InPerson)
     (mk_meeting ''Wednesday'' ''10:00'' ''11:00'' InPerson)"

definition sec_D :: CourseSection where
  "sec_D = mk_section ''PHIL'' ''120'' ''30004''
     (mk_meeting ''Monday'' ''09:59'' ''11:00'' InPerson)
     (mk_meeting ''Friday'' ''10:00'' ''11:00'' Online)"

section \<open>Input parser (parseCourseCsv)\<close>

text \<open>
  \<^verbatim>\<open>String.prototype.trim\<close> removes white space and line terminators at both ends; these
  are the ones among 8-bit characters (tab, line feed, vertical tab, form feed, carriage
  return, space, no-break space).
\<close>

definition is_space_js :: "char \<Rightarrow> bool" where
  "is_space_js c = ((of_char c :: nat) \<in> {9, 10, 11, 12, 13, 32, 160})"

definition trim_js :: "string \<Rightarrow> string" where
  "trim_js s = rev (dropWhile is_space_js (rev (dropWhile is_space_js s)))"

fun string_of_nat :: "nat \<Rightarrow> string" where
  "string_of_nat n =
     (if n < 10 then [char_of (48 + n)]
      else string_of_nat (n div 10) @ [char_of (48 + n mod 10)])"

text \<open>The regular expressions \<^verbatim>\<open>/^\d{5}$/\<close> and \<^verbatim>\<open>/^\d{3}$/\<close>.\<close>

definition digits_exactly :: "nat \<Rightarrow> string \<Rightarrow> bool" where
  "digits_exactly n s = (length s = n \<and> list_all is_digit s)"

text \<open>The regular expression \<^verbatim>\<open>/^([01]\d|2[0-3]):[0-5]\d-([01]\d|2[0-3]):[0-5]\d$/\<close>.\<close>

definition hour_pattern :: "char \<Rightarrow> char \<Rightarrow> bool" where
  "hour_pattern a b =
     (((a = CHR ''0'' \<or> a = CHR ''1'') \<and> is_digit b) \<or>
      (a = CHR ''2'' \<and> b \<in> set ''0123''))"

definition minute_pattern :: "char \<Rightarrow> char \<Rightarrow> bool" where
  "minute_pattern a b = (a \<in> set ''012345'' \<and> is_digit b)"

definition timePattern_test :: "string \<Rightarrow> bool" where
  "timePattern_test s =
     (length s = 11 \<and>
      hour_pattern (s ! 0) (s ! 1) \<and> s ! 2 = CHR '':'' \<and> minute_pattern (s ! 3) (s ! 4) \<and>
      s ! 5 = CHR ''-'' \<and>
      hour_pattern (s ! 6) (s ! 7) \<and> s ! 8 = CHR '':'' \<and> minute_pattern (s ! 9) (s ! 10))"

text \<open>
  A missing piece of a destructured split is \<^verbatim>\<open>undefined\<close>; the callers below only
  destructure strings that passed \<open>timePattern_test\<close>, where both pieces exist. The empty
  string stands for the missing piece (\<open>Number_js\<close> of a missing piece is NaN through
  \<open>number_at\<close>).
\<close>

definition string_at :: "string list \<Rightarrow> nat \<Rightarrow> string" where
  "string_at parts i = (if i < length parts then parts ! i else [])"

definition isValidTimeFormat :: "string \<Rightarrow> bool" where
  "isValidTimeFormat t =
     (if \<not> timePattern_test t then False
      else
        (let parts = split_js (CHR ''-'') t;
             start = split_js (CHR '':'') (string_at parts 0);
             end' = split_js (CHR '':'') (string_at parts 1);
             startMinutes = js_add (js_mul (number_at start 0) (Some 60)) (number_at start 1);
             endMinutes = js_add (js_mul (number_at end' 0) (Some 60)) (number_at end' 1)
         in js_lt startMinutes endMinutes))"

definition validDays :: "string list" where
  "validDays = [''Monday'', ''Tuesday'', ''Wednesday'', ''Thursday'', ''Friday'',
                ''Saturday'', ''Sunday'']"

definition isValidDay :: "string \<Rightarrow> bool" where
  "isValidDay d = (d \<in> set validDays)"

definition isValidMeetingType :: "string \<Rightarrow> bool" where
  "isValidMeetingType ty = (ty = ''Online'' \<or> ty = ''In-person'')"

definition meetingType_of :: "string \<Rightarrow> MeetingType" where
  "meetingType_of ty = (if ty = ''Online'' then Online else InPerson)"

definition parseTimeString :: "string \<Rightarrow> CourseTime" where
  "parseTimeString timeString =
     (let parts = split_js (CHR ''-'') timeString
      in \<lparr>startTime = string_at parts 0, endTime = string_at parts 1\<rparr>)"

definition expectedHeader :: string where
  "expectedHeader = ''CourseName,Subject,CourseCode,FirstMeetingDay,FirstMeetingTime,FirstMeetingType,SecondMeetingDay,SecondMeetingTime,SecondMeetingType,CRN''"

definition line_error :: "nat \<Rightarrow> string \<Rightarrow> string" where
  "line_error lineNumber msg = ''Line '' @ string_of_nat lineNumber @ '': '' @ msg"

text \<open>
  One pass of the row loop: the error pushed (\<open>Inl\<close>, the \<^verbatim>\<open>continue\<close> branches) or the
  section pushed (\<open>Inr\<close>), and the set of CRNs seen afterwards. The CRN is recorded as soon
  as it passed its own two checks, before the later checks of the row.
\<close>

definition parse_row ::
  "nat \<Rightarrow> string \<Rightarrow> string set \<Rightarrow> (string + CourseSection) \<times> string set" where
  "parse_row lineNumber line crnSet =
     (let fields = split_js (CHR '','') line in
      if length fields \<noteq> 10 then (Inl (line_error lineNumber ''Invalid number of fields''), crnSet)
      else
        (let courseName' = fields ! 0; subject' = fields ! 1; courseCode' = fields ! 2;
             firstDay = fields ! 3; firstTime = fields ! 4; firstType = fields ! 5;
             secondDay = fields ! 6; secondTime = fields ! 7; secondType = fields ! 8;
             crn' = fields ! 9 in
         if courseName' = [] \<or> subject' = [] \<or> courseCode' = [] \<or> crn' = [] then
           (Inl (line_error lineNumber ''Missing required fields''), crnSet)
         else if crn' \<in> crnSet then
           (Inl (line_error lineNumber (''Duplicate CRN '' @ crn')), crnSet)
         else if \<not> digits_exactly 5 crn' then
           (Inl (line_error lineNumber (''Invalid CRN format '' @ crn')), crnSet)
         else
           (let crnSet' = insert crn' crnSet in
            if \<not> digits_exactly 3 courseCode' then
              (Inl (line_error lineNumber (''Invalid course code format '' @ courseCode')), crnSet')
            else if \<not> isValidDay firstDay then
              (Inl (line_error lineNumber (''Invalid first meeting day '' @ firstDay)), crnSet')
            else if \<not> isValidDay secondDay then
              (Inl (line_error lineNumber (''Invalid second meeting day '' @ secondDay)), crnSet')
            else if \<not> isValidTimeFormat firstTime then
              (Inl (line_error lineNumber (''Invalid first meeting time format '' @ firstTime)), crnSet')
            else if \<not> isValidTimeFormat secondTime then
              (Inl (line_error lineNumber (''Invalid second meeting time format '' @ secondTime)), crnSet')
            else if \<not> isValidMeetingType firstType then
              (Inl (line_error lineNumber (''Invalid first meeting type '' @ firstType)), crnSet')
            else if \<not> isValidMeetingType secondType then
              (Inl (line_error lineNumber (''Invalid second meeting type '' @ secondType)), crnSet')
            else
              (Inr \<lparr>courseName = courseName', subject = subject', courseCode = courseCode',
                    crn = crn',
                    meetings =
                      [\<lparr>day = firstDay, time = parseTimeString firstTime,
                        type = meetingType_of firstType\<rparr>,
                       \<lparr>day = secondDay, time = parseTimeString secondTime,
                        type = meetingType_of secondType\<rparr>]\<rparr>,
               crnSet'))))"

text \<open>
  The loop \<^verbatim>\<open>for (let i = 1; i < lines.length; i++)\<close> over the lines after the header, with
  \<open>lineNumber = i + 1\<close>; the state is the error list, the parsed sections and the CRN set.
\<close>

fun parse_rows ::
  "nat \<Rightarrow> string list \<Rightarrow> string list \<Rightarrow> CourseSection list \<Rightarrow> string set \<Rightarrow>
   string list \<times> CourseSection list" where
  "parse_rows lineNumber [] errs parsedCourses crnSet = (errs, parsedCourses)"
| "parse_rows lineNumber (line # rest) errs parsedCourses crnSet =
     (case parse_row lineNumber line crnSet of
        (Inl err, crnSet') \<Rightarrow> parse_rows (Suc lineNumber) rest (errs @ [err]) parsedCourses crnSet'
      | (Inr courseSection, crnSet') \<Rightarrow>
          parse_rows (Suc lineNumber) rest errs (parsedCourses @ [courseSection]) crnSet')"

definition csv_lines :: "string \<Rightarrow> string list" where
  "csv_lines csvContent =
     filter (\<lambda>line. length line > 0) (map trim_js (split_js (CHR 0x0A) csvContent))"

text \<open>
  \<open>lines[0]\<close> is \<^verbatim>\<open>undefined\<close> (\<open>None\<close>) when there is no line at all, and then differs
  from the expected header too. Nothing inside the \<^verbatim>\<open>try\<close> block throws on a string, so
  the \<^verbatim>\<open>catch\<close> branch has no counterpart here.
\<close>

definition parseCourseCsv :: "string \<Rightarrow> ValidationResult" where
  "parseCourseCsv csvContent =
     (let lines = csv_lines csvContent;
          header = (case lines of [] \<Rightarrow> None | h # _ \<Rightarrow> Some h) in
      if header \<noteq> Some expectedHeader then
        \<lparr>isValid = False, errors = [''Invalid CSV header format''], data = None\<rparr>
      else
        (case parse_rows 2 (tl lines) [] [] {} of
           (errs, parsedCourses) \<Rightarrow>
             (let valid = (length errs = 0) in
              \<lparr>isValid = valid, errors = errs,
               data = (if valid then Some parsedCourses else None)\<rparr>)))"

definition example_csv :: string where
  "example_csv = expectedHeader @ [CHR 0x0A] @
     ''Software Testing and Deployment,CPRG,305,Monday,13:00-14:50,Online,Thursday,13:00-14:50,In-person,30922''"

definition bad_header_csv :: string where
  "bad_header_csv = ''  '' @ [CHR 0x0A] @ ''CourseName;Subject'' @ [CHR 0x0A] @
     ''Software Testing and Deployment,CPRG,305,Monday,13:00-14:50,Online,Thursday,13:00-14:50,In-person,30922''"

section \<open>JavaScript containers: Map and Array.prototype.sort\<close>

text \<open>
  A \<^verbatim>\<open>Map\<close> iterates in the order in which its keys were first set, so it is an
  association list: \<open>Map_set\<close> replaces the value of a key in place and puts a new key last.
\<close>

definition Map_has :: "('k \<times> 'v) list \<Rightarrow> 'k \<Rightarrow> bool" where
  "Map_has m k = (map_of m k \<noteq> None)"

definition Map_get :: "('k \<times> 'v) list \<Rightarrow> 'k \<Rightarrow> 'v option" where
  "Map_get m k = map_of m k"

fun Map_set :: "('k \<times> 'v) list \<Rightarrow> 'k \<Rightarrow> 'v \<Rightarrow> ('k \<times> 'v) list" where
  "Map_set [] k v = [(k, v)]"
| "Map_set (p # m) k v = (if fst p = k then (k, v) # m else p # Map_set m k v)"

text \<open>
  The idiom \<^verbatim>\<open>if (!m.has(k)) m.set(k, []); m.get(k)?.push(x)\<close>: the array stored under
  the key is extended in place.
\<close>

definition Map_push :: "('k \<times> 'v list) list \<Rightarrow> 'k \<Rightarrow> 'v \<Rightarrow> ('k \<times> 'v list) list" where
  "Map_push m k x =
     (let m' = (if \<not> Map_has m k then Map_set m k [] else m)
      in case Map_get m' k of None \<Rightarrow> m' | Some arr \<Rightarrow> Map_set m' k (arr @ [x]))"

text \<open>
  \<^verbatim>\<open>Array.prototype.sort(comparefn)\<close> is modelled as a stable insertion sort: each element
  in turn goes before the first element of the sorted prefix that the comparator places
  after it (\<open>comparefn(y, x) > 0\<close>). The comparator may consume state (the generator's
  comparator draws random numbers), so the state is threaded through the calls. For a
  comparator that is a consistent ordering every stable sort gives this result; for the
  generator's random tie-break the language leaves the algorithm to the engine, and this
  one stands for it.
\<close>

fun sort_insert ::
  "('s \<Rightarrow> 'a \<Rightarrow> 'a \<Rightarrow> rat \<times> 's) \<Rightarrow> 'a \<Rightarrow> 'a list \<Rightarrow> 's \<Rightarrow> 'a list \<times> 's" where
  "sort_insert comparefn x [] st = ([x], st)"
| "sort_insert comparefn x (y # ys) st =
     (case comparefn st y x of
        (v, st') \<Rightarrow>
          if v > 0 then (x # y # ys, st')
          else (case sort_insert comparefn x ys st' of (zs, st'') \<Rightarrow> (y # zs, st'')))"

fun sort_loop ::
  "('s \<Rightarrow> 'a \<Rightarrow> 'a \<Rightarrow> rat \<times> 's) \<Rightarrow> 'a list \<Rightarrow> 'a list \<Rightarrow> 's \<Rightarrow> 'a list \<times> 's" where
  "sort_loop comparefn sorted_prefix [] st = (sorted_prefix, st)"
| "sort_loop comparefn sorted_prefix (x # xs) st =
     (case sort_insert comparefn x sorted_prefix st of
        (sorted_prefix', st') \<Rightarrow> sort_loop comparefn sorted_prefix' xs st')"

definition Array_sort ::
  "('s \<Rightarrow> 'a \<Rightarrow> 'a \<Rightarrow> rat \<times> 's) \<Rightarrow> 'a list \<Rightarrow> 's \<Rightarrow> 'a list \<times> 's" where
  "Array_sort comparefn xs st = sort_loop comparefn [] xs st"

text \<open>A comparator result that is NaN counts as 0.\<close>

definition number_or_zero :: "jsnum \<Rightarrow> rat" where
  "number_or_zero v = (case v of None \<Rightarrow> 0 | Some x \<Rightarrow> of_int x)"

section \<open>Filter predicate (meetsFilterCriteria)\<close>

definition timeRanges :: "TimeOfDay \<Rightarrow> (int \<times> int) option" where
  "timeRanges t =
     (case t of Morning \<Rightarrow> Some (8, 12) | Afternoon \<Rightarrow> Some (12, 17)
              | Evening \<Rightarrow> Some (17, 21) | AnyTime \<Rightarrow> None)"

definition isInTimeRange :: "string \<Rightarrow> int \<times> int \<Rightarrow> bool" where
  "isInTimeRange t range' =
     (let minutes = timeToMinutes t
      in js_ge minutes (Some (fst range' * 60)) \<and> js_lt minutes (Some (snd range' * 60)))"

text \<open>The gap in hours, a fraction; NaN is \<open>None\<close>.\<close>

definition getGapBetweenMeetings :: "string \<Rightarrow> string \<Rightarrow> rat option" where
  "getGapBetweenMeetings end' start =
     map_option (\<lambda>d. of_int d / 60) (js_sub (timeToMinutes start) (timeToMinutes end'))"

definition sortMeetings :: "(string \<times> string) list \<Rightarrow> (string \<times> string) list" where
  "sortMeetings ms =
     fst (Array_sort
            (\<lambda>st a b. (number_or_zero (js_sub (timeToMinutes (fst a)) (timeToMinutes (fst b))), st))
            ms ())"

definition getActiveDays :: "CourseSection list \<Rightarrow> string set" where
  "getActiveDays combination =
     foldl (\<lambda>activeDays section.
              foldl (\<lambda>acc meeting. insert (day meeting) acc) activeDays (meetings section))
           {} combination"

text \<open>
  Each block of \<open>meetsFilterCriteria\<close> is a function that is \<open>False\<close> where the block
  executes \<^verbatim>\<open>return false\<close> and \<open>True\<close> where control falls through to the next block.
\<close>

definition daysOffCheck :: "CourseSection list \<Rightarrow> ScheduleFilters \<Rightarrow> bool" where
  "daysOffCheck combination filters =
     (if daysOff filters \<noteq> AnyDays then
        (let activeDays = getActiveDays combination;
             totalActiveDays = int (card activeDays);
             weekdays = int (length [''Monday'', ''Tuesday'', ''Wednesday'', ''Thursday'', ''Friday'']);
             daysOff' = weekdays - totalActiveDays
         in if daysOff filters = OneDay \<and> daysOff' \<noteq> 1 then False
            else if daysOff filters = TwoDays \<and> daysOff' \<noteq> 2 then False
            else True)
      else True)"

definition deliveryModeCheck :: "CourseSection list \<Rightarrow> ScheduleFilters \<Rightarrow> bool" where
  "deliveryModeCheck combination filters =
     (if deliveryMode filters \<noteq> AnyMode then
        (let meetingTypes = concat (map (\<lambda>section. map type (meetings section)) combination);
             onlineMeetingsCount = length (filter (\<lambda>ty. ty = Online) meetingTypes);
             inPersonMeetingsCount = length (filter (\<lambda>ty. ty = InPerson) meetingTypes);
             hasOnline = (onlineMeetingsCount > 0);
             hasInPerson = (inPersonMeetingsCount > 0);
             half = (of_nat (length meetingTypes) :: rat) / 2
         in case deliveryMode filters of
              OnlineMode \<Rightarrow> \<not> (of_nat onlineMeetingsCount < half)
            | InPersonMode \<Rightarrow> \<not> (of_nat inPersonMeetingsCount < half)
            | HybridMode \<Rightarrow> \<not> (\<not> hasOnline \<or> \<not> hasInPerson)
            | AnyMode \<Rightarrow> True)
      else True)"

definition timeOfDayCheck :: "CourseSection list \<Rightarrow> ScheduleFilters \<Rightarrow> bool" where
  "timeOfDayCheck combination filters =
     (if timeOfDay filters \<noteq> AnyTime then
        (case timeRanges (timeOfDay filters) of
           None \<Rightarrow> True
         | Some range' \<Rightarrow>
            (let meetingsInRange =
                   foldl (\<lambda>count section.
                            count + length (filter (\<lambda>meeting. isInTimeRange (startTime (time meeting)) range')
                                                   (meetings section)))
                         0 combination;
                 totalMeetings = foldl (\<lambda>count section. count + length (meetings section)) 0 combination
             in \<not> ((of_nat meetingsInRange :: rat) < of_nat totalMeetings / 2)))
      else True)"

text \<open>The loop over \<open>i = 1, 2, ...\<close> comparing each meeting of a sorted day with its predecessor.\<close>

fun gaps_valid :: "ScheduleCompactness \<Rightarrow> (string \<times> string) list \<Rightarrow> bool" where
  "gaps_valid c (prev # cur # rest) =
     (let gap = getGapBetweenMeetings (snd prev) (fst cur)
      in if c = Compact \<and> (case gap of None \<Rightarrow> False | Some g \<Rightarrow> g > 2) then False
         else if c = Spread \<and> (case gap of None \<Rightarrow> False | Some g \<Rightarrow> g < 1) then False
         else gaps_valid c (cur # rest))"
| "gaps_valid c [m] = True"
| "gaps_valid c [] = True"

definition compactnessCheck :: "CourseSection list \<Rightarrow> ScheduleFilters \<Rightarrow> bool" where
  "compactnessCheck combination filters =
     (if scheduleCompactness filters \<noteq> AnyCompactness then
        (let meetingsByDay =
               foldl (\<lambda>m section.
                        foldl (\<lambda>m' meeting.
                                 Map_push m' (day meeting)
                                   (startTime (time meeting), endTime (time meeting)))
                              m (meetings section))
                     [] combination;
             counts =
               foldl (\<lambda>(validDayCount, totalDaysWithMultipleMeetings) ms.
                        if length ms < 2 then (validDayCount, totalDaysWithMultipleMeetings)
                        else
                          (let isValidDay' = gaps_valid (scheduleCompactness filters) (sortMeetings ms)
                           in (if isValidDay' then validDayCount + 1 else validDayCount,
                               totalDaysWithMultipleMeetings + 1)))
                     (0 :: nat, 0 :: nat) (map snd meetingsByDay)
         in \<not> (snd counts > 0 \<and> (of_nat (fst counts) :: rat) < of_nat (snd counts) / 2))
      else True)"

definition meetsFilterCriteria :: "CourseSection list \<Rightarrow> ScheduleFilters \<Rightarrow> bool" where
  "meetsFilterCriteria combination filters =
     (if \<not> isEnabled filters then True
      else if \<not> daysOffCheck combination filters then False
      else if \<not> deliveryModeCheck combination filters then False
      else if \<not> timeOfDayCheck combination filters then False
      else if \<not> compactnessCheck combination filters then False
      else True)"

text \<open>
  The days-off rule in the words of the specification: only Monday to Friday count as
  active days.
\<close>

definition weekdayNames :: "string list" where
  "weekdayNames = [''Monday'', ''Tuesday'', ''Wednesday'', ''Thursday'', ''Friday'']"

definition meetingDays :: "CourseSection list \<Rightarrow> string set" where
  "meetingDays combination = (\<Union>s\<in>set combination. day ` set (meetings s))"

definition activeWeekdays :: "CourseSection list \<Rightarrow> string set" where
  "activeWeekdays combination = meetingDays combination \<inter> set weekdayNames"

definition sec_E :: CourseSection where
  "sec_E = mk_section ''CPRG'' ''211'' ''30005''
     (mk_meeting ''Monday'' ''09:00'' ''10:00'' InPerson)
     (mk_meeting ''Tuesday'' ''09:00'' ''10:00'' InPerson)"

definition sec_F :: CourseSection where
  "sec_F = mk_section ''CPNT'' ''217'' ''30006''
     (mk_meeting ''Wednesday'' ''09:00'' ''10:00'' InPerson)
     (mk_meeting ''Saturday'' ''09:00'' ''10:00'' Online)"

definition filters_twoDays :: ScheduleFilters where
  "filters_twoDays = \<lparr>isEnabled = True, deliveryMode = AnyMode, timeOfDay = AnyTime,
     scheduleCompactness = AnyCompactness, daysOff = TwoDays\<rparr>"

definition filters_oneDay :: ScheduleFilters where
  "filters_oneDay = \<lparr>isEnabled = True, deliveryMode = AnyMode, timeOfDay = AnyTime,
     scheduleCompactness = AnyCompactness, daysOff = OneDay\<rparr>"

definition defaultFilters :: ScheduleFilters where
  "defaultFilters = \<lparr>isEnabled = False, deliveryMode = AnyMode, timeOfDay = AnyTime,
     scheduleCompactness = AnyCompactness, daysOff = AnyDays\<rparr>"

section \<open>Combination search and result assembly (generateNonConflictingSchedules)\<close>

text \<open>The course identity \<^verbatim>\<open>`${section.subject}${section.courseCode}`\<close>.\<close>

definition courseIdOf :: "CourseSection \<Rightarrow> string" where
  "courseIdOf section = subject section @ courseCode section"

definition hasConflictWithCombination :: "CourseSection \<Rightarrow> CourseSection list \<Rightarrow> bool" where
  "hasConflictWithCombination section currentSections =
     list_ex (\<lambda>existingSection. hasTimeConflict section existingSection) currentSections"

definition groupSectionsByCourse ::
  "CourseSection list \<Rightarrow> (string \<times> CourseSection list) list" where
  "groupSectionsByCourse secs =
     foldl (\<lambda>grouped section. Map_push grouped (courseIdOf section) section) [] secs"

text \<open>
  The recursive closure \<open>buildCombinations\<close>. The working list \<open>currentCombination\<close> is
  pushed to before each recursive call and popped after it, so each call receives the list
  with the section appended; the result is the list of combinations the call pushes to
  \<open>combinations\<close>, in order. The captured \<open>filters\<close>, \<open>sectionsByCourse\<close> and \<open>courseIds\<close>
  (the keys of \<open>sectionsByCourse\<close>) are parameters. The search starts at index 0 and
  steps by one, so an index beyond the end is never reached; the model returns no
  combination there.
\<close>

function buildCombinations ::
  "ScheduleFilters \<Rightarrow> (string \<times> CourseSection list) list \<Rightarrow> CourseSection list \<Rightarrow> nat \<Rightarrow>
   ScheduleCombination list" where
  "buildCombinations filters sectionsByCourse currentCombination courseIndex =
     (if courseIndex = length (map fst sectionsByCourse) then
        (if meetsFilterCriteria currentCombination filters
         then [\<lparr>sections = currentCombination, courseCount = int (length currentCombination)\<rparr>]
         else [])
      else if courseIndex > length (map fst sectionsByCourse) then []
      else
        (let courseId = map fst sectionsByCourse ! courseIndex;
             courseSections = (case Map_get sectionsByCourse courseId of None \<Rightarrow> [] | Some ss \<Rightarrow> ss);
             pushed =
               concat (map (\<lambda>section.
                              if \<not> hasConflictWithCombination section currentCombination
                              then buildCombinations filters sectionsByCourse
                                     (currentCombination @ [section]) (courseIndex + 1)
                              else [])
                           courseSections);
             addedSection =
               list_ex (\<lambda>section. \<not> hasConflictWithCombination section currentCombination)
                       courseSections
         in if \<not> addedSection
            then pushed @ buildCombinations filters sectionsByCourse currentCombination (courseIndex + 1)
            else pushed))"
  by pat_completeness auto
termination
  by (relation "measure (\<lambda>(filters, sectionsByCourse, currentCombination, courseIndex).
                           length sectionsByCourse - courseIndex)") auto

text \<open>
  The comparator of the final sort. \<open>random n\<close> is the value of the \<open>n\<close>-th call of
  \<^verbatim>\<open>Math.random()\<close> made by the sort; the state counts the calls made so far.
\<close>

definition compareCombinations ::
  "(nat \<Rightarrow> rat) \<Rightarrow> nat \<Rightarrow> ScheduleCombination \<Rightarrow> ScheduleCombination \<Rightarrow> rat \<times> nat" where
  "compareCombinations random n a b =
     (if courseCount b \<noteq> courseCount a then (of_int (courseCount b - courseCount a), n)
      else (random n - 1 / 2, Suc n))"

definition generateNonConflictingSchedules ::
  "(nat \<Rightarrow> rat) \<Rightarrow> CourseSection list \<Rightarrow> string set \<Rightarrow> ScheduleFilters \<Rightarrow>
   ScheduleGeneratorResult" where
  "generateNonConflictingSchedules random allSections selectedCourseIds filters =
     (let selectedSections =
            filter (\<lambda>section. courseIdOf section \<in> selectedCourseIds) allSections;
          sectionsByCourse = groupSectionsByCourse selectedSections;
          courseIds = map fst sectionsByCourse;
          combinations' = buildCombinations filters sectionsByCourse [] 0;
          sorted = fst (Array_sort (compareCombinations random) combinations' 0)
      in \<lparr>combinations = sorted,
          stats = \<lparr>totalCombinations = int (length sorted), coursesIncluded = courseIds\<rparr>\<rparr>)"

definition sec_A2 :: CourseSection where
  "sec_A2 = mk_section ''CPRG'' ''305'' ''30007''
     (mk_meeting ''Tuesday'' ''09:00'' ''10:00'' Online)
     (mk_meeting ''Thursday'' ''09:00'' ''10:00'' InPerson)"

definition no_random :: "nat \<Rightarrow> rat" where
  "no_random n = 0"

text \<open>A comparator respects a key when it never places a smaller key first.\<close>

definition cmp_respects :: "('s \<Rightarrow> 'a \<Rightarrow> 'a \<Rightarrow> rat \<times> 's) \<Rightarrow> ('a \<Rightarrow> int) \<Rightarrow> bool" where
  "cmp_respects cmp key \<longleftrightarrow>
     (\<forall>st y x. (fst (cmp st y x) > 0 \<longrightarrow> key y \<le> key x) \<and>
               (\<not> fst (cmp st y x) > 0 \<longrightarrow> key x \<le> key y))"

section \<open>Notions used to state the properties of the search\<close>

text \<open>
  The same search by recursion on the groups that remain to be visited; it is shown equal to
  \<open>buildCombinations\<close> at every index.
\<close>

fun search_from ::
  "ScheduleFilters \<Rightarrow> CourseSection list \<Rightarrow> (string \<times> CourseSection list) list \<Rightarrow>
   ScheduleCombination list" where
  "search_from filters cur [] =
     (if meetsFilterCriteria cur filters
      then [\<lparr>sections = cur, courseCount = int (length cur)\<rparr>] else [])"
| "search_from filters cur (g # gs) =
     (let pushed =
            concat (map (\<lambda>section.
                           if \<not> hasConflictWithCombination section cur
                           then search_from filters (cur @ [section]) gs else [])
                        (snd g))
      in if \<not> list_ex (\<lambda>section. \<not> hasConflictWithCombination section cur) (snd g)
         then pushed @ search_from filters cur gs
         else pushed)"

text \<open>
  \<open>picks cur gs ch\<close>: starting from the partial combination \<open>cur\<close>, the search over the
  groups \<open>gs\<close> can append exactly the sections \<open>ch\<close>.
\<close>

fun picks ::
  "CourseSection list \<Rightarrow> (string \<times> CourseSection list) list \<Rightarrow> CourseSection list \<Rightarrow> bool" where
  "picks cur [] ch = (ch = [])"
| "picks cur (g # gs) ch =
     (if list_ex (\<lambda>section. \<not> hasConflictWithCombination section cur) (snd g)
      then (case ch of
              [] \<Rightarrow> False
            | s # rest \<Rightarrow>
                s \<in> set (snd g) \<and> \<not> hasConflictWithCombination s cur \<and> picks (cur @ [s]) gs rest)
      else picks cur gs ch)"

definition selectedSectionsOf :: "CourseSection list \<Rightarrow> string set \<Rightarrow> CourseSection list" where
  "selectedSectionsOf allSections selectedCourseIds =
     filter (\<lambda>section. courseIdOf section \<in> selectedCourseIds) allSections"

definition pairwise_conflict_free :: "CourseSection list \<Rightarrow> bool" where
  "pairwise_conflict_free c \<longleftrightarrow>
     (\<forall>i<length c. \<forall>j<length c. i \<noteq> j \<longrightarrow> \<not> hasTimeConflict (c ! i) (c ! j))"

text \<open>
  A conflict-free combination in the words of the specification: a choice of selected
  sections, at most one per course identity, no two of them in conflict.
\<close>

definition conflict_free_choice ::
  "CourseSection list \<Rightarrow> string set \<Rightarrow> CourseSection list \<Rightarrow> bool" where
  "conflict_free_choice allSections selectedCourseIds c \<longleftrightarrow>
     set c \<subseteq> set (selectedSectionsOf allSections selectedCourseIds) \<and>
     distinct (map courseIdOf c) \<and> pairwise_conflict_free c"

text \<open>
  A course may be left out of a combination only when each of its selected sections
  conflicts with a section of the combination that belongs to a course earlier in the
  traversal order \<open>courseIds\<close>.
\<close>

definition skips_justified ::
  "string list \<Rightarrow> CourseSection list \<Rightarrow> CourseSection list \<Rightarrow> bool" where
  "skips_justified courseIds selected c \<longleftrightarrow>
     (\<forall>p<length courseIds. courseIds ! p \<notin> courseIdOf ` set c \<longrightarrow>
        (\<forall>s\<in>set selected. courseIdOf s = courseIds ! p \<longrightarrow>
           (\<exists>t\<in>set c. courseIdOf t \<in> set (take p courseIds) \<and> hasTimeConflict s t)))"

definition search_choice ::
  "string list \<Rightarrow> CourseSection list \<Rightarrow> CourseSection list \<Rightarrow> bool" where
  "search_choice courseIds selected c \<longleftrightarrow>
     set c \<subseteq> set selected \<and>
     subseq (map courseIdOf c) courseIds \<and> distinct (map courseIdOf c) \<and>
     pairwise_conflict_free c \<and> skips_justified courseIds selected c"

text \<open>
  The same two notions relative to a partial combination \<open>cur\<close> and the groups \<open>gs\<close> that
  remain: a skipped group must have each of its sections in conflict with a section of
  \<open>cur\<close> or with a chosen section of a group before it.
\<close>

definition skips_justified_from ::
  "CourseSection list \<Rightarrow> (string \<times> CourseSection list) list \<Rightarrow> CourseSection list \<Rightarrow> bool" where
  "skips_justified_from cur gs ch \<longleftrightarrow>
     (\<forall>p<length gs. fst (gs ! p) \<notin> courseIdOf ` set ch \<longrightarrow>
        (\<forall>s\<in>set (snd (gs ! p)).
           \<exists>t. (t \<in> set cur \<or> (t \<in> set ch \<and> courseIdOf t \<in> fst ` set (take p gs))) \<and>
               hasTimeConflict s t))"

definition choice_from ::
  "CourseSection list \<Rightarrow> (string \<times> CourseSection list) list \<Rightarrow> CourseSection list \<Rightarrow> bool" where
  "choice_from cur gs ch \<longleftrightarrow>
     subseq (map courseIdOf ch) (map fst gs) \<and>
     (\<forall>s\<in>set ch. \<exists>g\<in>set gs. s \<in> set (snd g)) \<and>
     sorted_wrt (\<lambda>a b. \<not> hasTimeConflict b a) ch \<and>
     (\<forall>s\<in>set ch. \<forall>t\<in>set cur. \<not> hasTimeConflict s t) \<and>
     skips_justified_from cur gs ch"

definition ex_sorted :: "ScheduleCombination list" where
  "ex_sorted = combinations (generateNonConflictingSchedules no_random
     [sec_A, sec_A2, sec_B] {''CPRG305'', ''MATH101''} defaultFilters)"

definition ex_skipped :: ScheduleGeneratorResult where
  "ex_skipped = generateNonConflictingSchedules no_random
     [sec_A, sec_B] {''CPRG305'', ''MATH101''} defaultFilters"

text \<open>Every group holds sections of its own course identity only.\<close>

definition groups_ok :: "(string \<times> CourseSection list) list \<Rightarrow> bool" where
  "groups_ok gs \<longleftrightarrow> distinct (map fst gs) \<and> (\<forall>g\<in>set gs. \<forall>s\<in>set (snd g). courseIdOf s = fst g)"


declare buildCombinations.simps [simp del]

section \<open>Verified properties\<close>

subsection \<open>The conflict detector\<close>

lemma timeToMinutes_0900: "timeToMinutes ''09:00'' = Some 540"
  by (simp add: timeToMinutes_def number_at_def Number_js_def is_digit_def js_add_def js_mul_def)

lemma timeToMinutes_0959: "timeToMinutes ''09:59'' = Some 599"
  by (simp add: timeToMinutes_def number_at_def Number_js_def is_digit_def js_add_def js_mul_def)

lemma timeToMinutes_1000: "timeToMinutes ''10:00'' = Some 600"
  by (simp add: timeToMinutes_def number_at_def Number_js_def is_digit_def js_add_def js_mul_def)

lemma timeToMinutes_1100: "timeToMinutes ''11:00'' = Some 660"
  by (simp add: timeToMinutes_def number_at_def Number_js_def is_digit_def js_add_def js_mul_def)

lemma timeToMinutes_1300: "timeToMinutes ''13:00'' = Some 780"
  by (simp add: timeToMinutes_def number_at_def Number_js_def is_digit_def js_add_def js_mul_def)

lemma timeToMinutes_1450: "timeToMinutes ''14:50'' = Some 890"
  by (simp add: timeToMinutes_def number_at_def Number_js_def is_digit_def js_add_def js_mul_def)

lemmas example_minutes =
  timeToMinutes_0900 timeToMinutes_0959 timeToMinutes_1000 timeToMinutes_1100
  timeToMinutes_1300 timeToMinutes_1450

lemmas example_sections =
  sec_A_def sec_B_def sec_C_def sec_D_def mk_section_def mk_meeting_def

lemma meetingsOverlap_rule: "meetingsOverlap m1 m2 = overlap_rule m1 m2"
  by (simp add: meetingsOverlap_def overlap_rule_def Let_def js_lt_def Math_max_def Math_min_def
      split: option.splits)

lemma overlap_rule_sym: "overlap_rule m1 m2 = overlap_rule m2 m1"
  by (auto simp: overlap_rule_def max.commute min.commute split: option.splits)

lemma conflict_inner_iff: "conflict_inner m1 ms2 = (\<exists>m2\<in>set ms2. meetingsOverlap m1 m2)"
  by (induction ms2) auto

lemma conflict_outer_iff:
  "conflict_outer ms1 ms2 = (\<exists>m1\<in>set ms1. \<exists>m2\<in>set ms2. meetingsOverlap m1 m2)"
  by (induction ms1) (auto simp: conflict_inner_iff)

lemma hasTimeConflict_iff:
  "hasTimeConflict a b =
     (\<exists>m1\<in>set (meetings a). \<exists>m2\<in>set (meetings b). overlap_rule m1 m2)"
  by (simp add: hasTimeConflict_def conflict_outer_iff meetingsOverlap_rule)

lemma hasTimeConflict_commute: "hasTimeConflict a b = hasTimeConflict b a"
  unfolding hasTimeConflict_iff using overlap_rule_sym by blast

lemma overlap_rule_touching:
  assumes "timeToMinutes (endTime (time m1)) = Some t"
    and "timeToMinutes (startTime (time m2)) = Some t"
  shows "\<not> overlap_rule m1 m2"
  using assms by (auto simp: overlap_rule_def split: option.splits)

lemma overlap_rule_one_minute:
  assumes "day m1 = day m2"
    and "timeToMinutes (startTime (time m1)) = Some s1"
    and "timeToMinutes (endTime (time m1)) = Some (s2 + 1)"
    and "timeToMinutes (startTime (time m2)) = Some s2"
    and "timeToMinutes (endTime (time m2)) = Some e2"
    and "s1 < s2 + 1" and "s2 < e2"
  shows "overlap_rule m1 m2"
  using assms by (auto simp: overlap_rule_def)

text \<open>
  C5: \<open>hasTimeConflict\<close> is symmetric: for every pair of sections it gives the same answer
  in both argument orders.
\<close>

theorem hasTimeConflict_symmetric: "hasTimeConflict a b = hasTimeConflict b a"
  by (rule hasTimeConflict_commute)

theorem hasTimeConflict_symmetric_witness:
  "hasTimeConflict sec_A sec_B = hasTimeConflict sec_B sec_A \<and> hasTimeConflict sec_A sec_B"
  using hasTimeConflict_symmetric [of sec_A sec_B]
  by (simp add: hasTimeConflict_def meetingsOverlap_def example_sections example_minutes
      js_lt_def Math_max_def Math_min_def)

text \<open>
  C6: \<open>hasTimeConflict\<close> is a half-open interval overlap test in minutes since midnight.
  Two sections conflict exactly when a meeting of one and a meeting of the other are on the
  same day and the later of the two starts lies strictly before the earlier of the two ends.
  Two sections whose same-day meetings only touch (the end of one is the start of the other)
  do not conflict; a meeting that ends one minute after a same-day meeting of the other
  section starts makes the sections conflict (each meeting ending after it starts).
\<close>

theorem hasTimeConflict_half_open:
  "(hasTimeConflict a b \<longleftrightarrow>
      (\<exists>m1\<in>set (meetings a). \<exists>m2\<in>set (meetings b). overlap_rule m1 m2))
   \<and> ((\<forall>m1\<in>set (meetings c). \<forall>m2\<in>set (meetings d). day m1 = day m2 \<longrightarrow>
          (\<exists>t. (timeToMinutes (endTime (time m1)) = Some t \<and>
                timeToMinutes (startTime (time m2)) = Some t)
             \<or> (timeToMinutes (endTime (time m2)) = Some t \<and>
                timeToMinutes (startTime (time m1)) = Some t)))
        \<longrightarrow> \<not> hasTimeConflict c d)
   \<and> (m1 \<in> set (meetings e) \<and> m2 \<in> set (meetings f) \<and> day m1 = day m2 \<and>
        timeToMinutes (startTime (time m1)) = Some s1 \<and>
        timeToMinutes (endTime (time m1)) = Some (s2 + 1) \<and>
        timeToMinutes (startTime (time m2)) = Some s2 \<and>
        timeToMinutes (endTime (time m2)) = Some e2 \<and> s1 < s2 + 1 \<and> s2 < e2
        \<longrightarrow> hasTimeConflict e f)"
proof (intro conjI impI)
  show "hasTimeConflict a b \<longleftrightarrow>
      (\<exists>m1\<in>set (meetings a). \<exists>m2\<in>set (meetings b). overlap_rule m1 m2)"
    by (rule hasTimeConflict_iff)
next
  assume touch: "\<forall>m1\<in>set (meetings c). \<forall>m2\<in>set (meetings d). day m1 = day m2 \<longrightarrow>
          (\<exists>t. (timeToMinutes (endTime (time m1)) = Some t \<and>
                timeToMinutes (startTime (time m2)) = Some t)
             \<or> (timeToMinutes (endTime (time m2)) = Some t \<and>
                timeToMinutes (startTime (time m1)) = Some t))"
  show "\<not> hasTimeConflict c d"
  proof
    assume "hasTimeConflict c d"
    then obtain m1 m2 where in1: "m1 \<in> set (meetings c)" and in2: "m2 \<in> set (meetings d)"
      and ov: "overlap_rule m1 m2"
      unfolding hasTimeConflict_iff by blast
    from ov have "day m1 = day m2" by (simp add: overlap_rule_def)
    with touch in1 in2 obtain t where
      "(timeToMinutes (endTime (time m1)) = Some t \<and> timeToMinutes (startTime (time m2)) = Some t)
       \<or> (timeToMinutes (endTime (time m2)) = Some t \<and> timeToMinutes (startTime (time m1)) = Some t)"
      by blast
    then show False
    proof
      assume "timeToMinutes (endTime (time m1)) = Some t \<and> timeToMinutes (startTime (time m2)) = Some t"
      then have "\<not> overlap_rule m1 m2" using overlap_rule_touching by blast
      with ov show False by simp
    next
      assume "timeToMinutes (endTime (time m2)) = Some t \<and> timeToMinutes (startTime (time m1)) = Some t"
      then have "\<not> overlap_rule m2 m1" using overlap_rule_touching by blast
      with ov overlap_rule_sym show False by blast
    qed
  qed
next
  assume h: "m1 \<in> set (meetings e) \<and> m2 \<in> set (meetings f) \<and> day m1 = day m2 \<and>
        timeToMinutes (startTime (time m1)) = Some s1 \<and>
        timeToMinutes (endTime (time m1)) = Some (s2 + 1) \<and>
        timeToMinutes (startTime (time m2)) = Some s2 \<and>
        timeToMinutes (endTime (time m2)) = Some e2 \<and> s1 < s2 + 1 \<and> s2 < e2"
  then have "overlap_rule m1 m2" using overlap_rule_one_minute by blast
  with h show "hasTimeConflict e f" unfolding hasTimeConflict_iff by blast
qed

theorem hasTimeConflict_half_open_witness:
  "hasTimeConflict sec_A sec_B \<and> \<not> hasTimeConflict sec_A sec_C \<and> hasTimeConflict sec_A sec_D"
proof -
  let ?m1 = "mk_meeting ''Monday'' ''09:00'' ''10:00'' Online"
  let ?m2 = "mk_meeting ''Monday'' ''09:59'' ''11:00'' InPerson"
  have ov: "overlap_rule ?m1 (mk_meeting ''Monday'' ''09:00'' ''10:00'' InPerson)"
    by (simp add: overlap_rule_def mk_meeting_def example_minutes)
  have h1: "\<exists>m1\<in>set (meetings sec_A). \<exists>m2\<in>set (meetings sec_B). overlap_rule m1 m2"
    using ov by (simp add: sec_A_def sec_B_def mk_section_def)
  have h2: "\<forall>m1\<in>set (meetings sec_A). \<forall>m2\<in>set (meetings sec_C). day m1 = day m2 \<longrightarrow>
          (\<exists>t. (timeToMinutes (endTime (time m1)) = Some t \<and>
                timeToMinutes (startTime (time m2)) = Some t)
             \<or> (timeToMinutes (endTime (time m2)) = Some t \<and>
                timeToMinutes (startTime (time m1)) = Some t))"
    by (auto simp: example_sections example_minutes)
  have h3: "?m1 \<in> set (meetings sec_A) \<and> ?m2 \<in> set (meetings sec_D) \<and> day ?m1 = day ?m2 \<and>
        timeToMinutes (startTime (time ?m1)) = Some 540 \<and>
        timeToMinutes (endTime (time ?m1)) = Some (599 + 1) \<and>
        timeToMinutes (startTime (time ?m2)) = Some 599 \<and>
        timeToMinutes (endTime (time ?m2)) = Some 660 \<and> (540::int) < 599 + 1 \<and> (599::int) < 660"
    by (simp add: example_sections example_minutes)
  from hasTimeConflict_half_open [of sec_A sec_B sec_A sec_C ?m1 sec_A ?m2 sec_D 540 599 660] h1 h2 h3
  show ?thesis by blast
qed

subsection \<open>The parser\<close>

text \<open>
  C8: when the first non-empty trimmed line of the input differs from the expected header,
  \<open>parseCourseCsv\<close> returns \<open>isValid\<close> false, no data and exactly one error, whatever the
  later lines are.
\<close>

theorem parseCourseCsv_bad_header:
  assumes "csv_lines csvContent = first # rest" and "first \<noteq> expectedHeader"
  shows "isValid (parseCourseCsv csvContent) = False \<and>
         data (parseCourseCsv csvContent) = None \<and>
         length (errors (parseCourseCsv csvContent)) = 1"
  using assms by (simp add: parseCourseCsv_def Let_def)

theorem parseCourseCsv_bad_header_witness:
  "isValid (parseCourseCsv bad_header_csv) = False \<and>
   data (parseCourseCsv bad_header_csv) = None \<and>
   length (errors (parseCourseCsv bad_header_csv)) = 1"
proof -
  have l: "csv_lines bad_header_csv = ''CourseName;Subject'' #
    [''Software Testing and Deployment,CPRG,305,Monday,13:00-14:50,Online,Thursday,13:00-14:50,In-person,30922'']"
    by code_simp
  have n: "''CourseName;Subject'' \<noteq> expectedHeader"
    by (simp add: expectedHeader_def)
  show ?thesis using parseCourseCsv_bad_header [OF l n] .
qed

text \<open>
  C9: for every input text the result of \<open>parseCourseCsv\<close> has \<open>isValid\<close> true exactly
  when its error list is empty, and its data is present exactly when \<open>isValid\<close> is true.
\<close>

theorem parseCourseCsv_valid_iff:
  "(isValid (parseCourseCsv csvContent) \<longleftrightarrow> errors (parseCourseCsv csvContent) = []) \<and>
   (data (parseCourseCsv csvContent) \<noteq> None \<longleftrightarrow> isValid (parseCourseCsv csvContent))"
  by (simp add: parseCourseCsv_def Let_def split: prod.splits)

theorem parseCourseCsv_valid_iff_witness:
  "isValid (parseCourseCsv example_csv) \<and> errors (parseCourseCsv example_csv) = [] \<and>
   data (parseCourseCsv example_csv) \<noteq> None"
proof -
  have v: "isValid (parseCourseCsv example_csv)" by code_simp
  with parseCourseCsv_valid_iff [of example_csv] show ?thesis by blast
qed

subsection \<open>The filter predicate\<close>

lemma foldl_insert_day:
  "foldl (\<lambda>acc meeting. insert (day meeting) acc) A ms = A \<union> day ` set ms"
  by (induction ms arbitrary: A) auto

lemma getActiveDays_foldl:
  "foldl (\<lambda>activeDays section. activeDays \<union> day ` set (meetings section)) A c =
   A \<union> meetingDays c"
proof (induction c arbitrary: A)
  case Nil
  show ?case by (simp add: meetingDays_def)
next
  case (Cons s c)
  have "meetingDays (s # c) = day ` set (meetings s) \<union> meetingDays c"
    by (simp add: meetingDays_def)
  then show ?case by (simp add: Cons.IH Un_assoc)
qed

lemma getActiveDays_eq: "getActiveDays c = meetingDays c"
  by (simp add: getActiveDays_def foldl_insert_day getActiveDays_foldl)

lemma daysOffCheck_OneDay:
  "daysOff f = OneDay \<Longrightarrow> daysOffCheck c f \<longleftrightarrow> 5 - int (card (meetingDays c)) = 1"
  by (simp add: daysOffCheck_def getActiveDays_eq Let_def)

lemma daysOffCheck_TwoDays:
  "daysOff f = TwoDays \<Longrightarrow> daysOffCheck c f \<longleftrightarrow> 5 - int (card (meetingDays c)) = 2"
  by (simp add: daysOffCheck_def getActiveDays_eq Let_def)

lemma meetsFilterCriteria_daysOff:
  "isEnabled f \<Longrightarrow> meetsFilterCriteria c f \<Longrightarrow> daysOffCheck c f"
  by (simp add: meetsFilterCriteria_def split: if_splits)

lemma meetsFilterCriteria_only_daysOff:
  assumes "isEnabled f" and "deliveryMode f = AnyMode" and "timeOfDay f = AnyTime"
    and "scheduleCompactness f = AnyCompactness"
  shows "meetsFilterCriteria c f = daysOffCheck c f"
  using assms
  by (simp add: meetsFilterCriteria_def deliveryModeCheck_def timeOfDayCheck_def
      compactnessCheck_def)

lemma meetsFilterCriteria_disabled: "\<not> isEnabled f \<Longrightarrow> meetsFilterCriteria c f"
  by (simp add: meetsFilterCriteria_def)

lemma meetingDays_E_F:
  "meetingDays [sec_E, sec_F] = {''Monday'', ''Tuesday'', ''Wednesday'', ''Saturday''}"
  by (auto simp: meetingDays_def sec_E_def sec_F_def mk_section_def mk_meeting_def)

text \<open>
  C1, as stated (only Monday to Friday count, a Saturday meeting does not reduce the days
  off), fails: Monday, Tuesday, Wednesday and Saturday meetings leave two of the five
  weekdays free, yet the code computes one day off and rejects the combination under
  \<open>twoDays\<close>.
\<close>

theorem daysOff_weekend_counterexample:
  "isEnabled filters_twoDays \<and> daysOff filters_twoDays = TwoDays \<and>
   5 - int (card (activeWeekdays [sec_E, sec_F])) = 2 \<and>
   \<not> daysOffCheck [sec_E, sec_F] filters_twoDays \<and>
   \<not> meetsFilterCriteria [sec_E, sec_F] filters_twoDays"
proof -
  have a: "activeWeekdays [sec_E, sec_F] = {''Monday'', ''Tuesday'', ''Wednesday''}"
    unfolding activeWeekdays_def meetingDays_E_F by (auto simp: weekdayNames_def)
  have c: "card (meetingDays [sec_E, sec_F]) = 4"
    unfolding meetingDays_E_F by simp
  have d: "\<not> daysOffCheck [sec_E, sec_F] filters_twoDays"
    by (simp add: daysOffCheck_def getActiveDays_eq c filters_twoDays_def)
  have m: "\<not> meetsFilterCriteria [sec_E, sec_F] filters_twoDays"
    using d by (simp add: meetsFilterCriteria_def filters_twoDays_def)
  show ?thesis using d m by (simp add: a filters_twoDays_def)
qed

text \<open>
  C1, amended: with filters enabled and \<open>daysOff\<close> set to \<open>oneDay\<close> or \<open>twoDays\<close>, the
  days-off check computes 5 minus the number of distinct days, of any name, on which the
  combination has a meeting (a Saturday or Sunday meeting counts like any other day);
  \<open>oneDay\<close> passes exactly when that number is 1 and \<open>twoDays\<close> exactly when it is 2. A
  combination accepted by \<open>meetsFilterCriteria\<close> passes this check, and when the other three
  filters are \<open>any\<close> the check alone decides. For a combination that meets on Monday to
  Friday only, the number is 5 minus the count of its active weekdays.
\<close>

theorem daysOff_counts_every_meeting_day:
  assumes "isEnabled filters" and "daysOff filters = OneDay \<or> daysOff filters = TwoDays"
  shows "(daysOffCheck combination filters \<longleftrightarrow>
            5 - int (card (meetingDays combination)) = (if daysOff filters = OneDay then 1 else 2))
       \<and> (meetsFilterCriteria combination filters \<longrightarrow>
            5 - int (card (meetingDays combination)) = (if daysOff filters = OneDay then 1 else 2))
       \<and> (deliveryMode filters = AnyMode \<and> timeOfDay filters = AnyTime \<and>
          scheduleCompactness filters = AnyCompactness \<longrightarrow>
            (meetsFilterCriteria combination filters \<longleftrightarrow>
               5 - int (card (meetingDays combination)) = (if daysOff filters = OneDay then 1 else 2)))
       \<and> (meetingDays combination \<subseteq> set weekdayNames \<longrightarrow>
            (daysOffCheck combination filters \<longleftrightarrow>
               5 - int (card (activeWeekdays combination)) = (if daysOff filters = OneDay then 1 else 2)))"
proof -
  have chk: "daysOffCheck combination filters \<longleftrightarrow>
      5 - int (card (meetingDays combination)) = (if daysOff filters = OneDay then 1 else 2)"
    using assms(2) daysOffCheck_OneDay daysOffCheck_TwoDays by auto
  have acc: "meetsFilterCriteria combination filters \<longrightarrow> daysOffCheck combination filters"
    using assms(1) meetsFilterCriteria_daysOff by blast
  have only: "deliveryMode filters = AnyMode \<and> timeOfDay filters = AnyTime \<and>
      scheduleCompactness filters = AnyCompactness \<longrightarrow>
      meetsFilterCriteria combination filters = daysOffCheck combination filters"
    using assms(1) meetsFilterCriteria_only_daysOff by blast
  have wk: "meetingDays combination \<subseteq> set weekdayNames \<longrightarrow>
      activeWeekdays combination = meetingDays combination"
    by (auto simp: activeWeekdays_def)
  show ?thesis using chk acc only wk by auto
qed

theorem daysOff_counts_every_meeting_day_witness:
  "(isEnabled filters_oneDay \<and> daysOff filters_oneDay = OneDay \<and>
    5 - int (card (meetingDays [sec_E, sec_F])) = 1 \<and>
    daysOffCheck [sec_E, sec_F] filters_oneDay \<and>
    meetsFilterCriteria [sec_E, sec_F] filters_oneDay) \<and>
   (isEnabled filters_twoDays \<and> daysOff filters_twoDays = TwoDays \<and>
    meetingDays [sec_E, sec_C] \<subseteq> set weekdayNames \<and>
    5 - int (card (activeWeekdays [sec_E, sec_C])) = 2 \<and>
    daysOffCheck [sec_E, sec_C] filters_twoDays)"
proof -
  have e: "isEnabled filters_oneDay" by (simp add: filters_oneDay_def)
  have o: "daysOff filters_oneDay = OneDay \<or> daysOff filters_oneDay = TwoDays"
    by (simp add: filters_oneDay_def)
  have c: "5 - int (card (meetingDays [sec_E, sec_F])) = 1"
    unfolding meetingDays_E_F by simp
  have r: "deliveryMode filters_oneDay = AnyMode \<and> timeOfDay filters_oneDay = AnyTime \<and>
    scheduleCompactness filters_oneDay = AnyCompactness \<and> daysOff filters_oneDay = OneDay"
    by (simp add: filters_oneDay_def)
  from daysOff_counts_every_meeting_day [OF e o, of "[sec_E, sec_F]"] c r e
  have first: "isEnabled filters_oneDay \<and> daysOff filters_oneDay = OneDay \<and>
    5 - int (card (meetingDays [sec_E, sec_F])) = 1 \<and>
    daysOffCheck [sec_E, sec_F] filters_oneDay \<and>
    meetsFilterCriteria [sec_E, sec_F] filters_oneDay" by simp
  have e2: "isEnabled filters_twoDays" by (simp add: filters_twoDays_def)
  have o2: "daysOff filters_twoDays = OneDay \<or> daysOff filters_twoDays = TwoDays"
    by (simp add: filters_twoDays_def)
  have t2: "daysOff filters_twoDays = TwoDays" by (simp add: filters_twoDays_def)
  have md: "meetingDays [sec_E, sec_C] = {''Monday'', ''Tuesday'', ''Wednesday''}"
    by (auto simp: meetingDays_def sec_E_def sec_C_def mk_section_def mk_meeting_def)
  have sub: "meetingDays [sec_E, sec_C] \<subseteq> set weekdayNames"
    unfolding md by (simp add: weekdayNames_def)
  have aw: "5 - int (card (activeWeekdays [sec_E, sec_C])) = 2"
    unfolding activeWeekdays_def md by (simp add: weekdayNames_def)
  from daysOff_counts_every_meeting_day [OF e2 o2, of "[sec_E, sec_C]"] sub aw t2 e2
  have second: "isEnabled filters_twoDays \<and> daysOff filters_twoDays = TwoDays \<and>
    meetingDays [sec_E, sec_C] \<subseteq> set weekdayNames \<and>
    5 - int (card (activeWeekdays [sec_E, sec_C])) = 2 \<and>
    daysOffCheck [sec_E, sec_C] filters_twoDays" by auto
  from first second show ?thesis by blast
qed

subsection \<open>The model of sorting\<close>

lemma sort_insert_Cons_fst:
  "fst (sort_insert cmp x (y # ys) st) =
     (if fst (cmp st y x) > 0 then x # y # ys
      else y # fst (sort_insert cmp x ys (snd (cmp st y x))))"
  by (simp split: prod.splits)

lemma sort_insert_set: "set (fst (sort_insert cmp x ys st)) = insert x (set ys)"
proof (induction ys arbitrary: st)
  case Nil
  show ?case by simp
next
  case (Cons y ys)
  show ?case unfolding sort_insert_Cons_fst using Cons.IH by auto
qed

lemma sort_insert_length: "length (fst (sort_insert cmp x ys st)) = Suc (length ys)"
proof (induction ys arbitrary: st)
  case Nil
  show ?case by simp
next
  case (Cons y ys)
  show ?case unfolding sort_insert_Cons_fst using Cons.IH by auto
qed

lemma sort_loop_set: "set (fst (sort_loop cmp pre xs st)) = set pre \<union> set xs"
proof (induction xs arbitrary: pre st)
  case Nil
  show ?case by simp
next
  case (Cons x xs)
  obtain pre' st' where ins: "sort_insert cmp x pre st = (pre', st')"
    by (cases "sort_insert cmp x pre st")
  have "set pre' = insert x (set pre)"
    using sort_insert_set [of cmp x pre st] ins by simp
  then show ?case using Cons.IH [of pre' st'] ins by simp
qed

lemma sort_loop_length: "length (fst (sort_loop cmp pre xs st)) = length pre + length xs"
proof (induction xs arbitrary: pre st)
  case Nil
  show ?case by simp
next
  case (Cons x xs)
  obtain pre' st' where ins: "sort_insert cmp x pre st = (pre', st')"
    by (cases "sort_insert cmp x pre st")
  have "length pre' = Suc (length pre)"
    using sort_insert_length [of cmp x pre st] ins by simp
  then show ?case using Cons.IH [of pre' st'] ins by simp
qed

lemma Array_sort_set: "set (fst (Array_sort cmp xs st)) = set xs"
  by (simp add: Array_sort_def sort_loop_set)

lemma Array_sort_length: "length (fst (Array_sort cmp xs st)) = length xs"
  by (simp add: Array_sort_def sort_loop_length)

lemma sort_insert_sorted:
  assumes "cmp_respects cmp key" and "sorted_wrt (\<lambda>a b. key b \<le> key a) ys"
  shows "sorted_wrt (\<lambda>a b. key b \<le> key a) (fst (sort_insert cmp x ys st))"
  using assms(2)
proof (induction ys arbitrary: st)
  case Nil
  show ?case by simp
next
  case (Cons y ys)
  show ?case
  proof (cases "fst (cmp st y x) > 0")
    case True
    then have "key y \<le> key x" using assms(1) unfolding cmp_respects_def by blast
    then show ?thesis unfolding sort_insert_Cons_fst using Cons.prems True by auto
  next
    case False
    then have le: "key x \<le> key y" using assms(1) unfolding cmp_respects_def by blast
    have ih: "sorted_wrt (\<lambda>a b. key b \<le> key a) (fst (sort_insert cmp x ys (snd (cmp st y x))))"
      using Cons.IH Cons.prems by simp
    have "\<forall>z\<in>set (fst (sort_insert cmp x ys (snd (cmp st y x)))). key z \<le> key y"
      using le Cons.prems by (auto simp: sort_insert_set)
    then show ?thesis unfolding sort_insert_Cons_fst using False ih by simp
  qed
qed

lemma sort_loop_sorted:
  assumes "cmp_respects cmp key" and "sorted_wrt (\<lambda>a b. key b \<le> key a) pre"
  shows "sorted_wrt (\<lambda>a b. key b \<le> key a) (fst (sort_loop cmp pre xs st))"
  using assms(2)
proof (induction xs arbitrary: pre st)
  case Nil
  then show ?case by simp
next
  case (Cons x xs)
  obtain pre' st' where ins: "sort_insert cmp x pre st = (pre', st')"
    by (cases "sort_insert cmp x pre st")
  have "sorted_wrt (\<lambda>a b. key b \<le> key a) pre'"
    using sort_insert_sorted [OF assms(1) Cons.prems, of x st] ins by simp
  then show ?case using Cons.IH [of pre' st'] ins by simp
qed

lemma compareCombinations_respects: "cmp_respects (compareCombinations random) courseCount"
  by (auto simp: cmp_respects_def compareCombinations_def)

lemma sorted_combinations:
  "sorted_wrt (\<lambda>a b. courseCount b \<le> courseCount a)
     (fst (Array_sort (compareCombinations random) cs st))"
  unfolding Array_sort_def
  by (rule sort_loop_sorted [OF compareCombinations_respects]) simp

lemma combinations_generate:
  "combinations (generateNonConflictingSchedules random allSections selectedCourseIds filters) =
   fst (Array_sort (compareCombinations random)
          (buildCombinations filters
             (groupSectionsByCourse (filter (\<lambda>section. courseIdOf section \<in> selectedCourseIds) allSections))
             [] 0) 0)"
  by (simp add: generateNonConflictingSchedules_def Let_def)

text \<open>
  C7: the combinations returned by \<open>generateNonConflictingSchedules\<close> are ordered by
  \<open>courseCount\<close> descending: whenever the combination at position \<open>i\<close> has a strictly
  greater \<open>courseCount\<close> than the one at position \<open>j\<close>, it comes first (\<open>i < j\<close>). This
  holds for every sequence of values of \<^verbatim>\<open>Math.random()\<close>.
\<close>

theorem generate_sorted_by_courseCount:
  assumes "result = combinations (generateNonConflictingSchedules random allSections selectedCourseIds filters)"
    and "i < length result" and "j < length result"
    and "courseCount (result ! i) > courseCount (result ! j)"
  shows "i < j"
proof (rule ccontr)
  assume "\<not> i < j"
  then have "j = i \<or> j < i" by auto
  then show False
  proof
    assume "j = i" with assms(4) show False by simp
  next
    assume ji: "j < i"
    have "sorted_wrt (\<lambda>a b. courseCount b \<le> courseCount a) result"
      unfolding assms(1) combinations_generate by (rule sorted_combinations)
    then have "courseCount (result ! i) \<le> courseCount (result ! j)"
      using ji assms(2) by (simp add: sorted_wrt_iff_nth_less)
    with assms(4) show False by simp
  qed
qed

subsection \<open>Grouping by course\<close>

lemma Map_set_keys:
  "map fst (Map_set m k v) = (if k \<in> set (map fst m) then map fst m else map fst m @ [k])"
  by (induction m) auto

lemma Map_set_map_of: "map_of (Map_set m k v) = (map_of m)(k \<mapsto> v)"
  by (induction m) (auto simp: fun_upd_twist)

lemma Map_has_iff: "Map_has m k \<longleftrightarrow> k \<in> set (map fst m)"
  by (simp add: Map_has_def map_of_eq_None_iff)

lemma Map_push_keys:
  "map fst (Map_push m k x) = (if k \<in> set (map fst m) then map fst m else map fst m @ [k])"
proof (cases "k \<in> set (map fst m)")
  case True
  then obtain arr where "map_of m k = Some arr"
    by (metis Map_has_def Map_has_iff not_Some_eq)
  then show ?thesis using True
    by (simp add: Map_push_def Map_has_iff Map_get_def Map_set_keys del: set_map)
next
  case False
  then show ?thesis
    by (simp add: Map_push_def Map_has_iff Map_get_def Map_set_keys Map_set_map_of del: set_map)
qed

lemma Map_push_map_of:
  "map_of (Map_push m k x) =
   (map_of m)(k \<mapsto> (case map_of m k of None \<Rightarrow> [x] | Some arr \<Rightarrow> arr @ [x]))"
proof (cases "map_of m k")
  case None
  then show ?thesis
    by (simp add: Map_push_def Map_has_def Map_get_def Map_set_map_of)
next
  case (Some arr)
  then show ?thesis
    by (simp add: Map_push_def Map_has_def Map_get_def Map_set_map_of)
qed

lemma groupSectionsByCourse_snoc:
  "groupSectionsByCourse (xs @ [x]) = Map_push (groupSectionsByCourse xs) (courseIdOf x) x"
  by (simp add: groupSectionsByCourse_def)

lemma groupSectionsByCourse_inv:
  "distinct (map fst (groupSectionsByCourse xs)) \<and>
   (\<forall>k. map_of (groupSectionsByCourse xs) k =
         (if k \<in> courseIdOf ` set xs then Some (filter (\<lambda>s. courseIdOf s = k) xs) else None))"
proof (induction xs rule: rev_induct)
  case Nil
  show ?case by (simp add: groupSectionsByCourse_def)
next
  case (snoc x xs)
  let ?g = "groupSectionsByCourse xs"
  have d: "distinct (map fst ?g)" using snoc.IH by blast
  have m: "\<And>k. map_of ?g k =
         (if k \<in> courseIdOf ` set xs then Some (filter (\<lambda>s. courseIdOf s = k) xs) else None)"
    using snoc.IH by blast
  have d': "distinct (map fst (groupSectionsByCourse (xs @ [x])))"
    unfolding groupSectionsByCourse_snoc Map_push_keys using d by simp
  have none: "courseIdOf x \<notin> courseIdOf ` set xs \<Longrightarrow> filter (\<lambda>s. courseIdOf s = courseIdOf x) xs = []"
    by (force simp: filter_empty_conv image_iff)
  have m': "\<And>k. map_of (groupSectionsByCourse (xs @ [x])) k =
         (if k \<in> courseIdOf ` set (xs @ [x])
          then Some (filter (\<lambda>s. courseIdOf s = k) (xs @ [x])) else None)"
    unfolding groupSectionsByCourse_snoc Map_push_map_of
    using none by (auto simp: m)
  show ?case using d' m' by blast
qed

lemma groupSectionsByCourse_distinct: "distinct (map fst (groupSectionsByCourse xs))"
  using groupSectionsByCourse_inv by blast

lemma groupSectionsByCourse_member:
  "(k, ss) \<in> set (groupSectionsByCourse xs) \<longleftrightarrow>
   k \<in> courseIdOf ` set xs \<and> ss = filter (\<lambda>s. courseIdOf s = k) xs"
proof -
  have "(k, ss) \<in> set (groupSectionsByCourse xs) \<longleftrightarrow> map_of (groupSectionsByCourse xs) k = Some ss"
    using groupSectionsByCourse_distinct by (simp add: map_of_eq_Some_iff)
  then show ?thesis using groupSectionsByCourse_inv [of xs] by auto
qed

lemma groupSectionsByCourse_keys:
  "set (map fst (groupSectionsByCourse xs)) = courseIdOf ` set xs"
proof -
  have "set (map fst (groupSectionsByCourse xs)) = dom (map_of (groupSectionsByCourse xs))"
    by (simp add: dom_map_of_conv_image_fst)
  also have "\<dots> = courseIdOf ` set xs"
    using groupSectionsByCourse_inv [of xs] by (auto simp: dom_def)
  finally show ?thesis .
qed

lemma groupSectionsByCourse_ok: "groups_ok (groupSectionsByCourse xs)"
proof -
  have "\<forall>g\<in>set (groupSectionsByCourse xs). \<forall>s\<in>set (snd g). courseIdOf s = fst g"
  proof (intro ballI)
    fix g s assume g: "g \<in> set (groupSectionsByCourse xs)" and s: "s \<in> set (snd g)"
    from g have "(fst g, snd g) \<in> set (groupSectionsByCourse xs)" by simp
    then have "snd g = filter (\<lambda>s. courseIdOf s = fst g) xs"
      using groupSectionsByCourse_member by blast
    then have "set (snd g) = {s \<in> set xs. courseIdOf s = fst g}" by (metis set_filter)
    with s show "courseIdOf s = fst g" by simp
  qed
  then show ?thesis unfolding groups_ok_def using groupSectionsByCourse_distinct by blast
qed

subsection \<open>The search\<close>

lemma hasConflictWithCombination_iff:
  "hasConflictWithCombination s cur \<longleftrightarrow> (\<exists>t\<in>set cur. hasTimeConflict s t)"
  by (simp add: hasConflictWithCombination_def list_ex_iff)

lemma Map_get_nth:
  assumes "distinct (map fst gs)" and "i < length gs"
  shows "Map_get gs (map fst gs ! i) = Some (snd (gs ! i))"
proof -
  have "(fst (gs ! i), snd (gs ! i)) \<in> set gs" using assms(2) by simp
  then have "map_of gs (fst (gs ! i)) = Some (snd (gs ! i))"
    using assms(1) by (simp only: map_of_eq_Some_iff)
  then show ?thesis using assms(2) by (simp add: Map_get_def)
qed

lemma buildCombinations_search_from:
  assumes "distinct (map fst gs)" and "idx \<le> length gs"
  shows "buildCombinations f gs cur idx = search_from f cur (drop idx gs)"
  using assms(2)
proof (induction "length gs - idx" arbitrary: idx cur)
  case 0
  then have "idx = length gs" by simp
  then show ?case by (simp add: buildCombinations.simps)
next
  case (Suc n)
  then have lt: "idx < length gs" by simp
  have dr: "drop idx gs = gs ! idx # drop (Suc idx) gs"
    using lt by (simp add: Cons_nth_drop_Suc)
  have ih: "\<And>c. buildCombinations f gs c (idx + 1) = search_from f c (drop (Suc idx) gs)"
    using Suc.hyps(1) [of "Suc idx"] Suc.hyps(2) lt by simp
  have get: "Map_get gs (map fst gs ! idx) = Some (snd (gs ! idx))"
    using Map_get_nth [OF assms(1) lt] .
  show ?case
    apply (subst buildCombinations.simps)
    using lt apply (simp only: dr search_from.simps get Let_def length_map)
    apply (simp add: ih ih [simplified] cong: if_cong)
    done
qed

lemma search_from_iff:
  "comb \<in> set (search_from f cur gs) \<longleftrightarrow>
   (\<exists>ch. picks cur gs ch \<and> meetsFilterCriteria (cur @ ch) f \<and>
         comb = \<lparr>sections = cur @ ch, courseCount = int (length (cur @ ch))\<rparr>)"
proof (induction gs arbitrary: cur)
  case Nil
  show ?case by auto
next
  case (Cons g gs)
  show ?case
  proof (cases "list_ex (\<lambda>section. \<not> hasConflictWithCombination section cur) (snd g)")
    case True
    have "comb \<in> set (search_from f cur (g # gs)) \<longleftrightarrow>
          (\<exists>s\<in>set (snd g). \<not> hasConflictWithCombination s cur \<and>
             comb \<in> set (search_from f (cur @ [s]) gs))"
      using True by (auto simp: Let_def)
    also have "\<dots> \<longleftrightarrow> (\<exists>s\<in>set (snd g). \<not> hasConflictWithCombination s cur \<and>
         (\<exists>ch. picks (cur @ [s]) gs ch \<and> meetsFilterCriteria ((cur @ [s]) @ ch) f \<and>
               comb = \<lparr>sections = (cur @ [s]) @ ch, courseCount = int (length ((cur @ [s]) @ ch))\<rparr>))"
      by (simp only: Cons.IH)
    also have "\<dots> \<longleftrightarrow> (\<exists>ch. picks cur (g # gs) ch \<and> meetsFilterCriteria (cur @ ch) f \<and>
         comb = \<lparr>sections = cur @ ch, courseCount = int (length (cur @ ch))\<rparr>)"
    proof
      assume "\<exists>s\<in>set (snd g). \<not> hasConflictWithCombination s cur \<and>
         (\<exists>ch. picks (cur @ [s]) gs ch \<and> meetsFilterCriteria ((cur @ [s]) @ ch) f \<and>
               comb = \<lparr>sections = (cur @ [s]) @ ch, courseCount = int (length ((cur @ [s]) @ ch))\<rparr>)"
      then obtain s ch where s: "s \<in> set (snd g)" "\<not> hasConflictWithCombination s cur"
        and ch: "picks (cur @ [s]) gs ch" "meetsFilterCriteria ((cur @ [s]) @ ch) f"
          "comb = \<lparr>sections = (cur @ [s]) @ ch, courseCount = int (length ((cur @ [s]) @ ch))\<rparr>"
        by blast
      have "picks cur (g # gs) (s # ch)"
        using True s ch(1) by simp
      then show "\<exists>ch. picks cur (g # gs) ch \<and> meetsFilterCriteria (cur @ ch) f \<and>
         comb = \<lparr>sections = cur @ ch, courseCount = int (length (cur @ ch))\<rparr>"
        using ch(2,3) by (intro exI [of _ "s # ch"]) simp
    next
      assume "\<exists>ch. picks cur (g # gs) ch \<and> meetsFilterCriteria (cur @ ch) f \<and>
         comb = \<lparr>sections = cur @ ch, courseCount = int (length (cur @ ch))\<rparr>"
      then obtain ch where p: "picks cur (g # gs) ch" and m: "meetsFilterCriteria (cur @ ch) f"
        and c: "comb = \<lparr>sections = cur @ ch, courseCount = int (length (cur @ ch))\<rparr>"
        by blast
      from p True obtain s rest where ch: "ch = s # rest" and s: "s \<in> set (snd g)"
        "\<not> hasConflictWithCombination s cur" and r: "picks (cur @ [s]) gs rest"
        by (cases ch) auto
      show "\<exists>s\<in>set (snd g). \<not> hasConflictWithCombination s cur \<and>
         (\<exists>ch. picks (cur @ [s]) gs ch \<and> meetsFilterCriteria ((cur @ [s]) @ ch) f \<and>
               comb = \<lparr>sections = (cur @ [s]) @ ch, courseCount = int (length ((cur @ [s]) @ ch))\<rparr>)"
        using s r m c ch by (intro bexI [of _ s] conjI exI [of _ rest]) simp_all
    qed
    finally show ?thesis .
  next
    case False
    then have none: "\<forall>s\<in>set (snd g). hasConflictWithCombination s cur"
      by (simp add: list_ex_iff)
    have "concat (map (\<lambda>section.
                           if \<not> hasConflictWithCombination section cur
                           then search_from f (cur @ [section]) gs else [])
                        (snd g)) = []"
      using none by auto
    then have eq: "search_from f cur (g # gs) = search_from f cur gs"
      using False by (simp add: Let_def)
    have pk: "\<And>ch. picks cur (g # gs) ch = picks cur gs ch"
      using False by simp
    show ?thesis by (simp only: eq pk Cons.IH)
  qed
qed

lemma picks_exists: "\<exists>ch. picks cur gs ch"
proof (induction gs arbitrary: cur)
  case Nil
  show ?case by simp
next
  case (Cons g gs)
  show ?case
  proof (cases "list_ex (\<lambda>section. \<not> hasConflictWithCombination section cur) (snd g)")
    case True
    then obtain s where s: "s \<in> set (snd g)" "\<not> hasConflictWithCombination s cur"
      by (auto simp: list_ex_iff)
    obtain rest where "picks (cur @ [s]) gs rest" using Cons.IH by blast
    then have "picks cur (g # gs) (s # rest)" using True s by simp
    then show ?thesis by blast
  next
    case False
    then show ?thesis using Cons.IH by simp
  qed
qed

lemma subseq_set: "subseq xs ys \<Longrightarrow> set xs \<subseteq> set ys"
proof
  fix x assume s: "subseq xs ys" and x: "x \<in> set xs"
  show "x \<in> set ys" by (rule list_emb_set [OF s x]) simp
qed

lemma subseq_distinct: "subseq xs ys \<Longrightarrow> distinct ys \<Longrightarrow> distinct xs"
proof (induction ys arbitrary: xs)
  case Nil
  then show ?case by (cases xs) simp_all
next
  case (Cons y ys)
  show ?case
  proof (cases xs)
    case Nil
    then show ?thesis by simp
  next
    case xs: (Cons x xs')
    show ?thesis
    proof (cases "x = y")
      case True
      then have sub: "subseq xs' ys" using Cons.prems(1) xs by simp
      then have "set xs' \<subseteq> set ys" by (rule subseq_set)
      moreover have "distinct xs'" using Cons.IH [OF sub] Cons.prems(2) by simp
      ultimately show ?thesis using xs True Cons.prems(2) by auto
    next
      case False
      then have "subseq xs ys" using Cons.prems(1) xs by simp
      then show ?thesis using Cons.IH Cons.prems(2) by simp
    qed
  qed
qed

lemma subseq_Cons_not_in: "subseq xs (y # ys) \<Longrightarrow> y \<notin> set xs \<Longrightarrow> subseq xs ys"
proof (cases xs)
  case Nil
  then show ?thesis by simp
next
  case (Cons x xs')
  assume a: "subseq xs (y # ys)" and b: "y \<notin> set xs"
  from b Cons have "x \<noteq> y" by auto
  with a Cons show ?thesis by simp
qed

lemma groups_ok_Cons:
  "groups_ok (g # gs) \<longleftrightarrow>
   fst g \<notin> fst ` set gs \<and> (\<forall>s\<in>set (snd g). courseIdOf s = fst g) \<and> groups_ok gs"
  by (simp add: groups_ok_def) blast

lemma skips_justified_fromD:
  assumes "skips_justified_from cur gs ch" and "p < length gs"
    and "fst (gs ! p) \<notin> courseIdOf ` set ch" and "s \<in> set (snd (gs ! p))"
  shows "\<exists>t. (t \<in> set cur \<or> (t \<in> set ch \<and> courseIdOf t \<in> fst ` set (take p gs))) \<and>
             hasTimeConflict s t"
  using assms unfolding skips_justified_from_def by simp

lemma skips_justified_fromI:
  assumes "\<And>p s. p < length gs \<Longrightarrow> fst (gs ! p) \<notin> courseIdOf ` set ch \<Longrightarrow>
             s \<in> set (snd (gs ! p)) \<Longrightarrow>
             \<exists>t. (t \<in> set cur \<or> (t \<in> set ch \<and> courseIdOf t \<in> fst ` set (take p gs))) \<and>
                 hasTimeConflict s t"
  shows "skips_justified_from cur gs ch"
  using assms unfolding skips_justified_from_def by simp

lemma skips_justified_from_taken:
  assumes id: "courseIdOf s = fst g" and notin: "fst g \<notin> courseIdOf ` set rest"
    and fresh: "fst g \<notin> fst ` set gs"
  shows "skips_justified_from cur (g # gs) (s # rest) \<longleftrightarrow> skips_justified_from (cur @ [s]) gs rest"
proof
  assume L: "skips_justified_from cur (g # gs) (s # rest)"
  show "skips_justified_from (cur @ [s]) gs rest"
  proof (rule skips_justified_fromI)
    fix p x
    assume p: "p < length gs" and n: "fst (gs ! p) \<notin> courseIdOf ` set rest"
      and x: "x \<in> set (snd (gs ! p))"
    have "fst (gs ! p) \<in> fst ` set gs" using p by simp
    then have ne: "fst (gs ! p) \<noteq> fst g" using fresh by metis
    have 1: "Suc p < length (g # gs)" using p by simp
    have 2: "fst ((g # gs) ! Suc p) \<notin> courseIdOf ` set (s # rest)" using n ne id by simp
    have 3: "x \<in> set (snd ((g # gs) ! Suc p))" using x by simp
    from skips_justified_fromD [OF L 1 2 3] obtain t where
      t: "t \<in> set cur \<or> (t \<in> set (s # rest) \<and> courseIdOf t \<in> fst ` set (take (Suc p) (g # gs)))"
      and c: "hasTimeConflict x t" by blast
    have "t \<in> set (cur @ [s]) \<or> (t \<in> set rest \<and> courseIdOf t \<in> fst ` set (take p gs))"
    proof (cases "t \<in> set cur \<or> t = s")
      case True
      then show ?thesis by auto
    next
      case False
      with t have tr: "t \<in> set rest" and "courseIdOf t \<in> insert (fst g) (fst ` set (take p gs))"
        by auto
      moreover have "courseIdOf t \<noteq> fst g" using tr notin by (metis imageI)
      ultimately show ?thesis by simp
    qed
    with c show "\<exists>t. (t \<in> set (cur @ [s]) \<or> (t \<in> set rest \<and> courseIdOf t \<in> fst ` set (take p gs))) \<and>
                 hasTimeConflict x t" by blast
  qed
next
  assume R: "skips_justified_from (cur @ [s]) gs rest"
  show "skips_justified_from cur (g # gs) (s # rest)"
  proof (rule skips_justified_fromI)
    fix p x
    assume p: "p < length (g # gs)" and n: "fst ((g # gs) ! p) \<notin> courseIdOf ` set (s # rest)"
      and x: "x \<in> set (snd ((g # gs) ! p))"
    have "p \<noteq> 0" using n id by (cases p) auto
    then obtain q where q: "p = Suc q" by (cases p) auto
    have 1: "q < length gs" using p q by simp
    have 2: "fst (gs ! q) \<notin> courseIdOf ` set rest" using n q by simp
    have 3: "x \<in> set (snd (gs ! q))" using x q by simp
    from skips_justified_fromD [OF R 1 2 3] obtain t where
      t: "t \<in> set (cur @ [s]) \<or> (t \<in> set rest \<and> courseIdOf t \<in> fst ` set (take q gs))"
      and c: "hasTimeConflict x t" by blast
    have "t \<in> set cur \<or> (t \<in> set (s # rest) \<and> courseIdOf t \<in> fst ` set (take p (g # gs)))"
      using t q id by auto
    with c show "\<exists>t. (t \<in> set cur \<or> (t \<in> set (s # rest) \<and>
        courseIdOf t \<in> fst ` set (take p (g # gs)))) \<and> hasTimeConflict x t" by blast
  qed
qed

lemma skips_justified_from_skipped:
  assumes notin: "fst g \<notin> courseIdOf ` set ch"
  shows "skips_justified_from cur (g # gs) ch \<longleftrightarrow>
         (\<forall>s\<in>set (snd g). \<exists>t\<in>set cur. hasTimeConflict s t) \<and> skips_justified_from cur gs ch"
proof
  assume L: "skips_justified_from cur (g # gs) ch"
  have a: "\<forall>s\<in>set (snd g). \<exists>t\<in>set cur. hasTimeConflict s t"
  proof
    fix x assume x: "x \<in> set (snd g)"
    have 1: "0 < length (g # gs)" by simp
    have 2: "fst ((g # gs) ! 0) \<notin> courseIdOf ` set ch" using notin by simp
    have 3: "x \<in> set (snd ((g # gs) ! 0))" using x by simp
    from skips_justified_fromD [OF L 1 2 3] show "\<exists>t\<in>set cur. hasTimeConflict x t" by auto
  qed
  have b: "skips_justified_from cur gs ch"
  proof (rule skips_justified_fromI)
    fix p x
    assume p: "p < length gs" and n: "fst (gs ! p) \<notin> courseIdOf ` set ch"
      and x: "x \<in> set (snd (gs ! p))"
    have 1: "Suc p < length (g # gs)" using p by simp
    have 2: "fst ((g # gs) ! Suc p) \<notin> courseIdOf ` set ch" using n by simp
    have 3: "x \<in> set (snd ((g # gs) ! Suc p))" using x by simp
    from skips_justified_fromD [OF L 1 2 3] obtain t where
      t: "t \<in> set cur \<or> (t \<in> set ch \<and> courseIdOf t \<in> fst ` set (take (Suc p) (g # gs)))"
      and c: "hasTimeConflict x t" by blast
    have "t \<in> set cur \<or> (t \<in> set ch \<and> courseIdOf t \<in> fst ` set (take p gs))"
    proof (cases "t \<in> set cur")
      case True
      then show ?thesis by simp
    next
      case False
      with t have tr: "t \<in> set ch" and "courseIdOf t \<in> insert (fst g) (fst ` set (take p gs))"
        by auto
      moreover have "courseIdOf t \<noteq> fst g" using tr notin by (metis imageI)
      ultimately show ?thesis by simp
    qed
    with c show "\<exists>t. (t \<in> set cur \<or> (t \<in> set ch \<and> courseIdOf t \<in> fst ` set (take p gs))) \<and>
                 hasTimeConflict x t" by blast
  qed
  from a b show "(\<forall>s\<in>set (snd g). \<exists>t\<in>set cur. hasTimeConflict s t) \<and> skips_justified_from cur gs ch"
    by simp
next
  assume R: "(\<forall>s\<in>set (snd g). \<exists>t\<in>set cur. hasTimeConflict s t) \<and> skips_justified_from cur gs ch"
  then have a: "\<forall>s\<in>set (snd g). \<exists>t\<in>set cur. hasTimeConflict s t"
    and b: "skips_justified_from cur gs ch" by simp_all
  show "skips_justified_from cur (g # gs) ch"
  proof (rule skips_justified_fromI)
    fix p x
    assume p: "p < length (g # gs)" and n: "fst ((g # gs) ! p) \<notin> courseIdOf ` set ch"
      and x: "x \<in> set (snd ((g # gs) ! p))"
    show "\<exists>t. (t \<in> set cur \<or> (t \<in> set ch \<and> courseIdOf t \<in> fst ` set (take p (g # gs)))) \<and>
                 hasTimeConflict x t"
    proof (cases p)
      case 0
      then have "x \<in> set (snd g)" using x by simp
      with a show ?thesis by blast
    next
      case (Suc q)
      have 1: "q < length gs" using p Suc by simp
      have 2: "fst (gs ! q) \<notin> courseIdOf ` set ch" using n Suc by simp
      have 3: "x \<in> set (snd (gs ! q))" using x Suc by simp
      from skips_justified_fromD [OF b 1 2 3] obtain t where
        t: "t \<in> set cur \<or> (t \<in> set ch \<and> courseIdOf t \<in> fst ` set (take q gs))"
        and c: "hasTimeConflict x t" by blast
      have "t \<in> set cur \<or> (t \<in> set ch \<and> courseIdOf t \<in> fst ` set (take p (g # gs)))"
        using t Suc by auto
      with c show ?thesis by blast
    qed
  qed
qed

lemma choice_from_ids: "choice_from cur gs ch \<Longrightarrow> courseIdOf ` set ch \<subseteq> fst ` set gs"
  using subseq_set [of "map courseIdOf ch" "map fst gs"] by (simp add: choice_from_def)

lemma picks_choice_from:
  assumes "groups_ok gs" and "picks cur gs ch"
  shows "choice_from cur gs ch"
  using assms
proof (induction gs arbitrary: cur ch)
  case Nil
  then show ?case by (simp add: choice_from_def skips_justified_from_def)
next
  case (Cons g gs)
  have ok: "groups_ok gs" and fresh: "fst g \<notin> fst ` set gs"
    and own: "\<forall>s\<in>set (snd g). courseIdOf s = fst g"
    using Cons.prems(1) by (simp_all add: groups_ok_Cons)
  show ?case
  proof (cases "list_ex (\<lambda>section. \<not> hasConflictWithCombination section cur) (snd g)")
    case True
    with Cons.prems(2) obtain s rest where ch: "ch = s # rest" and s: "s \<in> set (snd g)"
      and free: "\<not> hasConflictWithCombination s cur" and r: "picks (cur @ [s]) gs rest"
      by (cases ch) auto
    have ih: "choice_from (cur @ [s]) gs rest" using Cons.IH [OF ok r] .
    have id: "courseIdOf s = fst g" using own s by blast
    have notin: "fst g \<notin> courseIdOf ` set rest" using choice_from_ids [OF ih] fresh by blast
    have sj: "skips_justified_from cur (g # gs) (s # rest)"
      using ih skips_justified_from_taken [OF id notin fresh] by (simp add: choice_from_def)
    have a: "subseq (map courseIdOf (s # rest)) (map fst (g # gs))"
      using ih id by (simp add: choice_from_def)
    have b: "\<forall>x\<in>set (s # rest). \<exists>g'\<in>set (g # gs). x \<in> set (snd g')"
      using ih s by (auto simp: choice_from_def)
    have c: "sorted_wrt (\<lambda>a b. \<not> hasTimeConflict b a) (s # rest)"
      using ih by (auto simp: choice_from_def)
    have d: "\<forall>x\<in>set (s # rest). \<forall>t\<in>set cur. \<not> hasTimeConflict x t"
      using ih free by (auto simp: choice_from_def hasConflictWithCombination_iff)
    show ?thesis unfolding choice_from_def ch by (intro conjI a b c d sj)
  next
    case False
    then have all: "\<forall>s\<in>set (snd g). \<exists>t\<in>set cur. hasTimeConflict s t"
      by (simp add: list_ex_iff hasConflictWithCombination_iff)
    from False Cons.prems(2) have "picks cur gs ch" by simp
    then have ih: "choice_from cur gs ch" using Cons.IH [OF ok] by blast
    have notin: "fst g \<notin> courseIdOf ` set ch" using choice_from_ids [OF ih] fresh by blast
    have sj: "skips_justified_from cur (g # gs) ch"
      using ih all skips_justified_from_skipped [OF notin] by (simp add: choice_from_def)
    have a: "subseq (map courseIdOf ch) (map fst (g # gs))"
      using ih by (auto simp: choice_from_def intro: list_emb_Cons)
    have b: "\<forall>x\<in>set ch. \<exists>g'\<in>set (g # gs). x \<in> set (snd g')"
      using ih by (auto simp: choice_from_def)
    have c: "sorted_wrt (\<lambda>a b. \<not> hasTimeConflict b a) ch"
      and d: "\<forall>x\<in>set ch. \<forall>t\<in>set cur. \<not> hasTimeConflict x t"
      using ih by (simp_all add: choice_from_def)
    show ?thesis unfolding choice_from_def by (intro conjI a b c d sj)
  qed
qed

lemma choice_from_picks:
  assumes "groups_ok gs" and "choice_from cur gs ch"
  shows "picks cur gs ch"
  using assms
proof (induction gs arbitrary: cur ch)
  case Nil
  then show ?case by (simp add: choice_from_def)
next
  case (Cons g gs)
  have ok: "groups_ok gs" and fresh: "fst g \<notin> fst ` set gs"
    and own: "\<forall>s\<in>set (snd g). courseIdOf s = fst g"
    using Cons.prems(1) by (simp_all add: groups_ok_Cons)
  have okall: "\<forall>g'\<in>set gs. \<forall>x\<in>set (snd g'). courseIdOf x = fst g'"
    using ok by (simp add: groups_ok_def)
  from Cons.prems(2) have
    sub: "subseq (map courseIdOf ch) (fst g # map fst gs)" and
    mem: "\<forall>x\<in>set ch. \<exists>g'\<in>set (g # gs). x \<in> set (snd g')" and
    srt: "sorted_wrt (\<lambda>a b. \<not> hasTimeConflict b a) ch" and
    cur: "\<forall>x\<in>set ch. \<forall>t\<in>set cur. \<not> hasTimeConflict x t" and
    sj: "skips_justified_from cur (g # gs) ch"
    by (simp_all add: choice_from_def)
  show ?case
  proof (cases "fst g \<in> courseIdOf ` set ch")
    case True
    then obtain s rest where ch: "ch = s # rest" by (cases ch) auto
    have id: "courseIdOf s = fst g"
    proof (rule ccontr)
      assume "courseIdOf s \<noteq> fst g"
      then have "subseq (map courseIdOf ch) (map fst gs)" using sub ch by simp
      then have "courseIdOf ` set ch \<subseteq> fst ` set gs"
        using subseq_set [of "map courseIdOf ch" "map fst gs"] by simp
      with True fresh show False by blast
    qed
    have sub': "subseq (map courseIdOf rest) (map fst gs)" using sub ch id by simp
    then have ids: "courseIdOf ` set rest \<subseteq> fst ` set gs"
      using subseq_set [of "map courseIdOf rest" "map fst gs"] by simp
    then have notin: "fst g \<notin> courseIdOf ` set rest" using fresh by blast
    have sin: "s \<in> set (snd g)"
    proof -
      have "s \<in> set ch" using ch by simp
      with mem obtain g' where g': "g' \<in> set (g # gs)" "s \<in> set (snd g')" by blast
      show ?thesis
      proof (cases "g' = g")
        case True
        with g' show ?thesis by simp
      next
        case False
        then have "g' \<in> set gs" using g' by simp
        then have "courseIdOf s = fst g'" "fst g' \<in> fst ` set gs" using okall g'(2) by auto
        with id fresh show ?thesis by simp
      qed
    qed
    have free: "\<not> hasConflictWithCombination s cur"
      using cur ch by (simp add: hasConflictWithCombination_iff)
    have mem': "\<forall>x\<in>set rest. \<exists>g'\<in>set gs. x \<in> set (snd g')"
    proof
      fix x assume x: "x \<in> set rest"
      then have "x \<in> set ch" using ch by simp
      with mem obtain g' where g': "g' \<in> set (g # gs)" "x \<in> set (snd g')" by blast
      have "g' \<noteq> g"
      proof
        assume "g' = g"
        then have "courseIdOf x = fst g" using own g'(2) by simp
        with notin x show False by (metis imageI)
      qed
      then show "\<exists>g'\<in>set gs. x \<in> set (snd g')" using g' by auto
    qed
    have srt': "sorted_wrt (\<lambda>a b. \<not> hasTimeConflict b a) rest"
      and cur': "\<forall>x\<in>set rest. \<forall>t\<in>set (cur @ [s]). \<not> hasTimeConflict x t"
      using srt cur ch by auto
    have sj': "skips_justified_from (cur @ [s]) gs rest"
      using sj ch skips_justified_from_taken [OF id notin fresh] by simp
    have "choice_from (cur @ [s]) gs rest"
      unfolding choice_from_def by (intro conjI sub' mem' srt' cur' sj')
    then have "picks (cur @ [s]) gs rest" using Cons.IH [OF ok] by blast
    moreover have "list_ex (\<lambda>section. \<not> hasConflictWithCombination section cur) (snd g)"
      using sin free by (auto simp: list_ex_iff)
    ultimately show ?thesis using ch sin free by simp
  next
    case False
    have all: "\<forall>s\<in>set (snd g). \<exists>t\<in>set cur. hasTimeConflict s t"
      and sj': "skips_justified_from cur gs ch"
      using sj skips_justified_from_skipped [OF False] by simp_all
    have sub': "subseq (map courseIdOf ch) (map fst gs)"
      using sub False subseq_Cons_not_in [of "map courseIdOf ch" "fst g" "map fst gs"] by simp
    have mem': "\<forall>x\<in>set ch. \<exists>g'\<in>set gs. x \<in> set (snd g')"
    proof
      fix x assume x: "x \<in> set ch"
      with mem obtain g' where g': "g' \<in> set (g # gs)" "x \<in> set (snd g')" by blast
      have "g' \<noteq> g"
      proof
        assume "g' = g"
        then have "courseIdOf x = fst g" using own g'(2) by simp
        with False x show False by (metis imageI)
      qed
      then show "\<exists>g'\<in>set gs. x \<in> set (snd g')" using g' by auto
    qed
    have "choice_from cur gs ch"
      unfolding choice_from_def by (intro conjI sub' mem' srt cur sj')
    then have "picks cur gs ch" using Cons.IH [OF ok] by blast
    moreover have "\<not> list_ex (\<lambda>section. \<not> hasConflictWithCombination section cur) (snd g)"
      using all by (simp add: list_ex_iff hasConflictWithCombination_iff)
    ultimately show ?thesis by simp
  qed
qed

subsection \<open>The generator\<close>

lemma sorted_conflict_free:
  "sorted_wrt (\<lambda>a b. \<not> hasTimeConflict b a) c \<longleftrightarrow> pairwise_conflict_free c"
proof
  assume s: "sorted_wrt (\<lambda>a b. \<not> hasTimeConflict b a) c"
  show "pairwise_conflict_free c"
    unfolding pairwise_conflict_free_def
  proof (intro allI impI)
    fix i j assume i: "i < length c" and j: "j < length c" and ne: "i \<noteq> j"
    show "\<not> hasTimeConflict (c ! i) (c ! j)"
    proof (cases "i < j")
      case True
      then have "\<not> hasTimeConflict (c ! j) (c ! i)"
        using s j by (simp add: sorted_wrt_iff_nth_less)
      then show ?thesis using hasTimeConflict_commute by blast
    next
      case False
      then have "j < i" using ne by simp
      then show ?thesis using s i by (simp add: sorted_wrt_iff_nth_less)
    qed
  qed
next
  assume p: "pairwise_conflict_free c"
  show "sorted_wrt (\<lambda>a b. \<not> hasTimeConflict b a) c"
    unfolding sorted_wrt_iff_nth_less
  proof (intro allI impI)
    fix i j assume "i < j" and "j < length c"
    then show "\<not> hasTimeConflict (c ! j) (c ! i)"
      using p unfolding pairwise_conflict_free_def by simp
  qed
qed

lemma combinations_set:
  "set (combinations (generateNonConflictingSchedules random allSections selectedCourseIds filters)) =
   set (search_from filters []
          (groupSectionsByCourse (selectedSectionsOf allSections selectedCourseIds)))"
proof -
  let ?gs = "groupSectionsByCourse (selectedSectionsOf allSections selectedCourseIds)"
  have "buildCombinations filters ?gs [] 0 = search_from filters [] (drop 0 ?gs)"
    by (rule buildCombinations_search_from [OF groupSectionsByCourse_distinct]) simp
  then show ?thesis
    by (simp add: combinations_generate Array_sort_set selectedSectionsOf_def)
qed

lemma combinations_member:
  "comb \<in> set (combinations (generateNonConflictingSchedules random allSections selectedCourseIds filters))
   \<longleftrightarrow>
   (\<exists>ch. picks [] (groupSectionsByCourse (selectedSectionsOf allSections selectedCourseIds)) ch \<and>
         meetsFilterCriteria ch filters \<and>
         comb = \<lparr>sections = ch, courseCount = int (length ch)\<rparr>)"
  unfolding combinations_set search_from_iff by simp

lemma coursesIncluded_generate:
  "coursesIncluded (stats (generateNonConflictingSchedules random allSections selectedCourseIds filters)) =
   map fst (groupSectionsByCourse (selectedSectionsOf allSections selectedCourseIds))"
  by (simp add: generateNonConflictingSchedules_def Let_def selectedSectionsOf_def)

lemma totalCombinations_generate:
  "totalCombinations (stats (generateNonConflictingSchedules random allSections selectedCourseIds filters)) =
   int (length (combinations
     (generateNonConflictingSchedules random allSections selectedCourseIds filters)))"
  by (simp add: generateNonConflictingSchedules_def Let_def)

lemma group_membership:
  "(\<forall>s\<in>set c. \<exists>g\<in>set (groupSectionsByCourse sel). s \<in> set (snd g)) \<longleftrightarrow> set c \<subseteq> set sel"
proof
  assume a: "\<forall>s\<in>set c. \<exists>g\<in>set (groupSectionsByCourse sel). s \<in> set (snd g)"
  show "set c \<subseteq> set sel"
  proof
    fix s assume "s \<in> set c"
    with a obtain g where g: "g \<in> set (groupSectionsByCourse sel)" "s \<in> set (snd g)" by blast
    from g(1) have "(fst g, snd g) \<in> set (groupSectionsByCourse sel)" by simp
    then have "snd g = filter (\<lambda>x. courseIdOf x = fst g) sel"
      using groupSectionsByCourse_member by blast
    with g(2) show "s \<in> set sel" by (metis filter_is_subset subsetD)
  qed
next
  assume a: "set c \<subseteq> set sel"
  show "\<forall>s\<in>set c. \<exists>g\<in>set (groupSectionsByCourse sel). s \<in> set (snd g)"
  proof
    fix s assume "s \<in> set c"
    then have s: "s \<in> set sel" using a by blast
    let ?g = "(courseIdOf s, filter (\<lambda>x. courseIdOf x = courseIdOf s) sel)"
    have "?g \<in> set (groupSectionsByCourse sel)"
      using s groupSectionsByCourse_member [of "courseIdOf s" _ sel] by simp
    moreover have "s \<in> set (snd ?g)" using s by simp
    ultimately show "\<exists>g\<in>set (groupSectionsByCourse sel). s \<in> set (snd g)" by blast
  qed
qed

lemma group_nth:
  assumes "p < length (groupSectionsByCourse sel)"
  shows "set (snd (groupSectionsByCourse sel ! p)) =
         {s \<in> set sel. courseIdOf s = map fst (groupSectionsByCourse sel) ! p}"
proof -
  let ?g = "groupSectionsByCourse sel ! p"
  have "(fst ?g, snd ?g) \<in> set (groupSectionsByCourse sel)" using assms by simp
  then have "snd ?g = filter (\<lambda>x. courseIdOf x = fst ?g) sel"
    using groupSectionsByCourse_member by blast
  then have "set (snd ?g) = {s \<in> set sel. courseIdOf s = fst ?g}" by (metis set_filter)
  then show ?thesis using assms by simp
qed

lemma skips_justified_groups:
  "skips_justified_from [] (groupSectionsByCourse sel) c \<longleftrightarrow>
   skips_justified (map fst (groupSectionsByCourse sel)) sel c"
proof -
  let ?gs = "groupSectionsByCourse sel"
  have tk: "\<And>p. fst ` set (take p ?gs) = set (take p (map fst ?gs))"
    by (simp add: take_map)
  show ?thesis
  proof
    assume L: "skips_justified_from [] ?gs c"
    show "skips_justified (map fst ?gs) sel c"
      unfolding skips_justified_def
    proof (intro allI impI ballI)
      fix p s
      assume p: "p < length (map fst ?gs)" and n: "map fst ?gs ! p \<notin> courseIdOf ` set c"
        and s: "s \<in> set sel" and id: "courseIdOf s = map fst ?gs ! p"
      have 1: "p < length ?gs" using p by simp
      have 2: "fst (?gs ! p) \<notin> courseIdOf ` set c" using n 1 by simp
      have 3: "s \<in> set (snd (?gs ! p))" using group_nth [OF 1] s id by simp
      from skips_justified_fromD [OF L 1 2 3]
      show "\<exists>t\<in>set c. courseIdOf t \<in> set (take p (map fst ?gs)) \<and> hasTimeConflict s t"
        unfolding tk by auto
    qed
  next
    assume R: "skips_justified (map fst ?gs) sel c"
    show "skips_justified_from [] ?gs c"
    proof (rule skips_justified_fromI)
      fix p s
      assume p: "p < length ?gs" and n: "fst (?gs ! p) \<notin> courseIdOf ` set c"
        and s: "s \<in> set (snd (?gs ! p))"
      have 1: "p < length (map fst ?gs)" using p by simp
      have 2: "map fst ?gs ! p \<notin> courseIdOf ` set c" using n p by simp
      have 3: "s \<in> set sel" "courseIdOf s = map fst ?gs ! p" using group_nth [OF p] s by simp_all
      from R 1 2 3 have "\<exists>t\<in>set c. courseIdOf t \<in> set (take p (map fst ?gs)) \<and> hasTimeConflict s t"
        unfolding skips_justified_def by blast
      then show "\<exists>t. (t \<in> set [] \<or> (t \<in> set c \<and> courseIdOf t \<in> fst ` set (take p ?gs))) \<and>
                 hasTimeConflict s t"
        unfolding tk by auto
    qed
  qed
qed

lemma choice_from_search_choice:
  "choice_from [] (groupSectionsByCourse sel) c \<longleftrightarrow>
   search_choice (map fst (groupSectionsByCourse sel)) sel c"
proof -
  have d: "subseq (map courseIdOf c) (map fst (groupSectionsByCourse sel)) \<Longrightarrow>
           distinct (map courseIdOf c)"
    using subseq_distinct groupSectionsByCourse_distinct by blast
  show ?thesis
    unfolding choice_from_def search_choice_def group_membership sorted_conflict_free
      skips_justified_groups
    using d by auto
qed

lemma picks_search_choice:
  "picks [] (groupSectionsByCourse sel) c \<longleftrightarrow>
   search_choice (map fst (groupSectionsByCourse sel)) sel c"
  using picks_choice_from [OF groupSectionsByCourse_ok]
    choice_from_picks [OF groupSectionsByCourse_ok] choice_from_search_choice
  by blast

lemma ex_sorted_eq:
  "combinations (generateNonConflictingSchedules no_random
     [sec_A, sec_A2, sec_B] {''CPRG305'', ''MATH101''} defaultFilters) =
   [\<lparr>sections = [sec_A2, sec_B], courseCount = 2\<rparr>, \<lparr>sections = [sec_A], courseCount = 1\<rparr>]"
  by code_simp

lemma ex_skipped_eq:
  "generateNonConflictingSchedules no_random [sec_A, sec_B] {''CPRG305'', ''MATH101''} defaultFilters =
   \<lparr>combinations = [\<lparr>sections = [sec_A], courseCount = 1\<rparr>],
    stats = \<lparr>totalCombinations = 1, coursesIncluded = [''CPRG305'', ''MATH101'']\<rparr>\<rparr>"
  by code_simp

lemma defaultFilters_disabled: "\<not> isEnabled defaultFilters"
  by (simp add: defaultFilters_def)

text \<open>
  C3: every combination returned by \<open>generateNonConflictingSchedules\<close> is internally
  conflict-free: \<open>hasTimeConflict\<close> is false for every two sections at different positions
  of one returned combination.
\<close>

theorem generate_conflict_free:
  assumes "comb \<in> set (combinations
             (generateNonConflictingSchedules random allSections selectedCourseIds filters))"
    and "i < length (sections comb)" and "j < length (sections comb)" and "i \<noteq> j"
  shows "\<not> hasTimeConflict (sections comb ! i) (sections comb ! j)"
proof -
  from assms(1) obtain ch where
    p: "picks [] (groupSectionsByCourse (selectedSectionsOf allSections selectedCourseIds)) ch"
    and c: "comb = \<lparr>sections = ch, courseCount = int (length ch)\<rparr>"
    unfolding combinations_member by blast
  have "choice_from [] (groupSectionsByCourse (selectedSectionsOf allSections selectedCourseIds)) ch"
    using picks_choice_from [OF groupSectionsByCourse_ok p] .
  then have "pairwise_conflict_free ch"
    by (simp add: choice_from_def sorted_conflict_free)
  then show ?thesis using assms(2,3,4) c by (simp add: pairwise_conflict_free_def)
qed

theorem generate_conflict_free_witness:
  "\<lparr>sections = [sec_A2, sec_B], courseCount = 2\<rparr> \<in> set (combinations
      (generateNonConflictingSchedules no_random [sec_A, sec_A2, sec_B]
         {''CPRG305'', ''MATH101''} defaultFilters)) \<and>
   \<not> hasTimeConflict sec_A2 sec_B"
proof -
  have m: "\<lparr>sections = [sec_A2, sec_B], courseCount = 2\<rparr> \<in> set (combinations
      (generateNonConflictingSchedules no_random [sec_A, sec_A2, sec_B]
         {''CPRG305'', ''MATH101''} defaultFilters))"
    unfolding ex_sorted_eq by simp
  from generate_conflict_free [OF m, of 0 1] m show ?thesis by simp
qed

text \<open>
  C4: no combination returned by \<open>generateNonConflictingSchedules\<close> holds two sections of
  the same course identity (the concatenation of subject and course code).
\<close>

theorem generate_one_section_per_course:
  assumes "comb \<in> set (combinations
             (generateNonConflictingSchedules random allSections selectedCourseIds filters))"
    and "i < length (sections comb)" and "j < length (sections comb)" and "i \<noteq> j"
  shows "courseIdOf (sections comb ! i) \<noteq> courseIdOf (sections comb ! j)"
proof -
  from assms(1) obtain ch where
    p: "picks [] (groupSectionsByCourse (selectedSectionsOf allSections selectedCourseIds)) ch"
    and c: "comb = \<lparr>sections = ch, courseCount = int (length ch)\<rparr>"
    unfolding combinations_member by blast
  have "choice_from [] (groupSectionsByCourse (selectedSectionsOf allSections selectedCourseIds)) ch"
    using picks_choice_from [OF groupSectionsByCourse_ok p] .
  then have "subseq (map courseIdOf ch)
      (map fst (groupSectionsByCourse (selectedSectionsOf allSections selectedCourseIds)))"
    by (simp add: choice_from_def)
  then have d: "distinct (map courseIdOf ch)"
    using subseq_distinct groupSectionsByCourse_distinct by blast
  have li: "i < length (map courseIdOf ch)" and lj: "j < length (map courseIdOf ch)"
    using assms(2,3) c by simp_all
  have "map courseIdOf ch ! i \<noteq> map courseIdOf ch ! j"
    using nth_eq_iff_index_eq [OF d li lj] assms(4) by simp
  then show ?thesis using assms(2,3) c by simp
qed

theorem generate_one_section_per_course_witness:
  "\<lparr>sections = [sec_A2, sec_B], courseCount = 2\<rparr> \<in> set (combinations
      (generateNonConflictingSchedules no_random [sec_A, sec_A2, sec_B]
         {''CPRG305'', ''MATH101''} defaultFilters)) \<and>
   courseIdOf sec_A2 \<noteq> courseIdOf sec_B"
proof -
  have m: "\<lparr>sections = [sec_A2, sec_B], courseCount = 2\<rparr> \<in> set (combinations
      (generateNonConflictingSchedules no_random [sec_A, sec_A2, sec_B]
         {''CPRG305'', ''MATH101''} defaultFilters))"
    unfolding ex_sorted_eq by simp
  from generate_one_section_per_course [OF m, of 0 1] m show ?thesis by simp
qed

theorem generate_sorted_by_courseCount_witness:
  "length ex_sorted = 2 \<and> courseCount (ex_sorted ! 0) > courseCount (ex_sorted ! 1) \<and> (0::nat) < 1"
proof -
  have e: "ex_sorted = combinations (generateNonConflictingSchedules no_random
     [sec_A, sec_A2, sec_B] {''CPRG305'', ''MATH101''} defaultFilters)"
    by (simp add: ex_sorted_def)
  have v: "ex_sorted = [\<lparr>sections = [sec_A2, sec_B], courseCount = 2\<rparr>,
                        \<lparr>sections = [sec_A], courseCount = 1\<rparr>]"
    unfolding e ex_sorted_eq by simp
  have l0: "0 < length ex_sorted" and l1: "1 < length ex_sorted"
    and gt: "courseCount (ex_sorted ! 0) > courseCount (ex_sorted ! 1)"
    by (simp_all add: v)
  from generate_sorted_by_courseCount [OF e l0 l1 gt] l1 gt show ?thesis by (simp add: v)
qed

text \<open>
  C10: with filters disabled \<open>generateNonConflictingSchedules\<close> returns at least one
  combination (\<open>totalCombinations\<close> is at least 1); when no section belongs to a selected
  course identity it returns exactly one combination, with no section and \<open>courseCount\<close> 0.
\<close>

theorem generate_disabled_nonempty:
  assumes "\<not> isEnabled filters"
    and "result = generateNonConflictingSchedules random allSections selectedCourseIds filters"
  shows "length (combinations result) \<ge> 1 \<and> totalCombinations (stats result) \<ge> 1 \<and>
         ((\<forall>s\<in>set allSections. courseIdOf s \<notin> selectedCourseIds) \<longrightarrow>
            combinations result = [\<lparr>sections = [], courseCount = 0\<rparr>] \<and>
            totalCombinations (stats result) = 1)"
proof -
  let ?gs = "groupSectionsByCourse (selectedSectionsOf allSections selectedCourseIds)"
  obtain ch where p: "picks [] ?gs ch" using picks_exists by blast
  have "\<lparr>sections = ch, courseCount = int (length ch)\<rparr> \<in> set (combinations result)"
    unfolding assms(2) combinations_member
    using p meetsFilterCriteria_disabled [OF assms(1)] by blast
  then have ne: "combinations result \<noteq> []" by auto
  then have len: "length (combinations result) \<ge> 1" by (cases "combinations result") simp_all
  have tot: "totalCombinations (stats result) = int (length (combinations result))"
    unfolding assms(2) by (rule totalCombinations_generate)
  have empty: "combinations result = [\<lparr>sections = [], courseCount = 0\<rparr>]"
    if none: "\<forall>s\<in>set allSections. courseIdOf s \<notin> selectedCourseIds"
  proof -
    have "filter (\<lambda>section. courseIdOf section \<in> selectedCourseIds) allSections = []"
      using none by (simp add: filter_empty_conv)
    then show ?thesis
      unfolding assms(2) combinations_generate
      using meetsFilterCriteria_disabled [OF assms(1)]
      by (simp add: groupSectionsByCourse_def buildCombinations.simps Array_sort_def)
  qed
  show ?thesis using len tot empty by simp
qed

theorem generate_disabled_nonempty_witness:
  "\<not> isEnabled defaultFilters \<and>
   combinations (generateNonConflictingSchedules no_random [sec_A, sec_B] {''COMM238''} defaultFilters)
     = [\<lparr>sections = [], courseCount = 0\<rparr>] \<and>
   totalCombinations (stats
     (generateNonConflictingSchedules no_random [sec_A, sec_B] {''COMM238''} defaultFilters)) = 1"
proof -
  have n: "\<forall>s\<in>set [sec_A, sec_B]. courseIdOf s \<notin> {''COMM238''}"
    by (simp add: courseIdOf_def example_sections)
  from generate_disabled_nonempty [OF defaultFilters_disabled refl,
      of no_random "[sec_A, sec_B]" "{''COMM238''}"] n defaultFilters_disabled
  show ?thesis by blast
qed

text \<open>
  C2, as stated (with filters disabled the output holds every conflict-free choice of at
  most one section per selected course), fails: when the only sections of two selected
  courses conflict, the search keeps the section of the first course and skips the second;
  the choice of the second course's section alone is conflict-free and is not returned.
\<close>

theorem generate_disabled_exact_counterexample:
  "\<not> isEnabled defaultFilters \<and>
   conflict_free_choice [sec_A, sec_B] {''CPRG305'', ''MATH101''} [sec_B] \<and>
   [sec_B] \<notin> sections ` set (combinations ex_skipped)"
proof -
  have c: "conflict_free_choice [sec_A, sec_B] {''CPRG305'', ''MATH101''} [sec_B]"
    by (simp add: conflict_free_choice_def selectedSectionsOf_def pairwise_conflict_free_def
        courseIdOf_def example_sections)
  have "sec_B \<noteq> sec_A" by (simp add: example_sections)
  then have "[sec_B] \<notin> sections ` set (combinations ex_skipped)"
    unfolding ex_skipped_def ex_skipped_eq by simp
  with c defaultFilters_disabled show ?thesis by simp
qed

text \<open>
  C2, amended: with filters disabled, the returned combinations are exactly the lists of
  selected sections that (1) take at most one section per course identity, in the traversal
  order \<open>coursesIncluded\<close>, (2) are pairwise conflict-free, and (3) leave a course of
  \<open>coursesIncluded\<close> out only when each selected section of that course conflicts with a
  section of the combination that belongs to an earlier course of the traversal order.
  Every such list is returned and nothing else is; \<open>courseCount\<close> is the length of the list,
  and \<open>coursesIncluded\<close> lists each course identity of a selected section once.
\<close>

theorem generate_disabled_exact:
  assumes "\<not> isEnabled filters"
    and "result = generateNonConflictingSchedules random allSections selectedCourseIds filters"
  shows "(c \<in> sections ` set (combinations result) \<longleftrightarrow>
            search_choice (coursesIncluded (stats result))
              (selectedSectionsOf allSections selectedCourseIds) c)
       \<and> (\<forall>comb\<in>set (combinations result). courseCount comb = int (length (sections comb)))
       \<and> distinct (coursesIncluded (stats result))
       \<and> set (coursesIncluded (stats result)) =
           courseIdOf ` set (selectedSectionsOf allSections selectedCourseIds)"
proof -
  let ?sel = "selectedSectionsOf allSections selectedCourseIds"
  let ?gs = "groupSectionsByCourse ?sel"
  have ids: "coursesIncluded (stats result) = map fst ?gs"
    unfolding assms(2) by (rule coursesIncluded_generate)
  have mem: "\<And>comb. comb \<in> set (combinations result) \<longleftrightarrow>
      (\<exists>ch. picks [] ?gs ch \<and> comb = \<lparr>sections = ch, courseCount = int (length ch)\<rparr>)"
    unfolding assms(2) combinations_member
    using meetsFilterCriteria_disabled [OF assms(1)] by simp
  have "c \<in> sections ` set (combinations result) \<longleftrightarrow> picks [] ?gs c"
  proof
    assume "c \<in> sections ` set (combinations result)"
    then obtain comb where "comb \<in> set (combinations result)" "c = sections comb" by blast
    then show "picks [] ?gs c" using mem by auto
  next
    assume "picks [] ?gs c"
    then have "\<lparr>sections = c, courseCount = int (length c)\<rparr> \<in> set (combinations result)"
      using mem by blast
    then show "c \<in> sections ` set (combinations result)" by force
  qed
  then have a: "c \<in> sections ` set (combinations result) \<longleftrightarrow>
      search_choice (coursesIncluded (stats result)) ?sel c"
    unfolding ids picks_search_choice .
  have b: "\<forall>comb\<in>set (combinations result). courseCount comb = int (length (sections comb))"
    using mem by auto
  have d: "distinct (coursesIncluded (stats result))"
    unfolding ids by (rule groupSectionsByCourse_distinct)
  have e: "set (coursesIncluded (stats result)) = courseIdOf ` set ?sel"
    unfolding ids by (rule groupSectionsByCourse_keys)
  show ?thesis using a b d e by simp
qed

theorem generate_disabled_exact_witness:
  "\<not> isEnabled defaultFilters \<and>
   [sec_A] \<in> sections ` set (combinations ex_skipped) \<and>
   search_choice (coursesIncluded (stats ex_skipped))
     (selectedSectionsOf [sec_A, sec_B] {''CPRG305'', ''MATH101''}) [sec_A]"
proof -
  have m: "[sec_A] \<in> sections ` set (combinations ex_skipped)"
    unfolding ex_skipped_def ex_skipped_eq by simp
  from generate_disabled_exact [OF defaultFilters_disabled ex_skipped_def, of "[sec_A]"]
    m defaultFilters_disabled
  show ?thesis by blast
qed

end
